theory Spec2Isabelle
  imports Main "HOL-Library.Sublist" "HOL-Library.Multiset"
begin

section \<open>Text primitives\<close>

text \<open>
  The program is JavaScript; its strings are sequences of UTF-16 code units. A text is
  modelled as a \<open>string\<close> whose characters are the code units \<open>0x00\<close> to \<open>0xFF\<close>
  (the Latin-1 range), on which the library functions used by the source
  (\<open>toLowerCase\<close>, \<open>trim\<close>, \<open>includes\<close>, \<open>split\<close>, \<open>join\<close> and the character
  class \<open>\s\<close>) are character-wise and are written out below.
\<close>

text \<open>
  White space of \<open>String.prototype.trim\<close> and of the regular-expression class \<open>\s\<close>,
  restricted to the Latin-1 range: TAB, LF, VT, FF, CR, SPACE and NO-BREAK SPACE.
\<close>

definition isSpace :: "char \<Rightarrow> bool" where
  "isSpace c =
     (c \<in> set [CHR 0x09, CHR 0x0A, CHR 0x0B, CHR 0x0C, CHR 0x0D, CHR 0x20, CHR 0xA0])"

text \<open>
  The code units that \<open>toLowerCase\<close> changes: \<open>A\<close> to \<open>Z\<close> (65 to 90) and the Latin-1
  capitals 192 to 222 except the multiplication sign 215. Each is mapped to the code
  unit 32 above it, which is the same unit with bit 5 set.
\<close>

definition isUpperChar :: "char \<Rightarrow> bool" where
  "isUpperChar c =
     (let n = (of_char c :: nat)
      in (65 \<le> n \<and> n \<le> 90) \<or> (192 \<le> n \<and> n \<le> 222 \<and> n \<noteq> 215))"

fun toLowerChar :: "char \<Rightarrow> char" where
  "toLowerChar (Char b0 b1 b2 b3 b4 b5 b6 b7) =
     (if isUpperChar (Char b0 b1 b2 b3 b4 b5 b6 b7)
      then Char b0 b1 b2 b3 b4 True b6 b7
      else Char b0 b1 b2 b3 b4 b5 b6 b7)"

definition toLowerCase :: "string \<Rightarrow> string" where
  "toLowerCase s = map toLowerChar s"

text \<open>\<open>s.includes(k)\<close>: \<open>k\<close> occurs in \<open>s\<close> as a contiguous substring.\<close>

fun str_includes :: "string \<Rightarrow> string \<Rightarrow> bool" where
  "str_includes [] k = (k = [])"
| "str_includes (c # cs) k = (prefix k (c # cs) \<or> str_includes cs k)"

text \<open>\<open>s.trim()\<close>: white space removed from both ends.\<close>

definition trim :: "string \<Rightarrow> string" where
  "trim s = rev (dropWhile isSpace (rev (dropWhile isSpace s)))"

text \<open>
  \<open>content.split('\n')\<close>: the pieces between line feeds; a text without a line feed
  (the empty text too) is one line.
\<close>

fun splitLines :: "string \<Rightarrow> string list" where
  "splitLines [] = [[]]"
| "splitLines (c # cs) =
     (if c = CHR ''\<newline>'' then [] # splitLines cs
      else (case splitLines cs of [] \<Rightarrow> [[c]] | l # ls \<Rightarrow> (c # l) # ls))"

text \<open>\<open>section.join('\n')\<close>: the empty array joins to the empty string.\<close>

fun joinLines :: "string list \<Rightarrow> string" where
  "joinLines [] = []"
| "joinLines [l] = l"
| "joinLines (l # m # ls) = l @ CHR ''\<newline>'' # joinLines (m # ls)"

section \<open>The heuristic splitter: \<open>extractSection\<close>\<close>

text \<open>
  The test of line 112 of \<open>index.js\<close>, on the lower-cased line:
  \<open>keywords.some(keyword => line.includes(keyword) && (line.includes(':') || line.includes('#')))\<close>.
\<close>

definition isHeader :: "string list \<Rightarrow> string \<Rightarrow> bool" where
  "isHeader keywords line =
     list_ex (\<lambda>keyword. str_includes line keyword \<and> (str_includes line '':'' \<or> str_includes line ''#''))
       keywords"

text \<open>
  Lines 119 to 125: \<open>nextNonEmpty\<close> runs from \<open>i + 1\<close> over the lines that trim to the
  empty string; the test holds when it stops inside the array, on a line that contains
  a colon or a hash sign. The argument is the list of the lines after line \<open>i\<close>.
\<close>

fun nextNonEmptyStartsSection :: "string list \<Rightarrow> bool" where
  "nextNonEmptyStartsSection [] = False"
| "nextNonEmptyStartsSection (l # ls) =
     (if trim l = [] then nextNonEmptyStartsSection ls
      else (str_includes (toLowerCase l) '':'' \<or> str_includes (toLowerCase l) ''#''))"

text \<open>
  The \<open>for\<close> loop of lines 110 to 133, as a recursion on the lines that are left, with
  the two variables \<open>inSection\<close> and \<open>section\<close> as arguments. \<open>continue\<close> is the
  recursive call on the rest, \<open>break\<close> returns \<open>section\<close> as it is.
\<close>

fun extractLoop :: "string list \<Rightarrow> string list \<Rightarrow> bool \<Rightarrow> string list \<Rightarrow> string list" where
  "extractLoop keywords [] inSection section = section"
| "extractLoop keywords (l # rest) inSection section =
     (let line = toLowerCase l
      in if isHeader keywords line then extractLoop keywords rest True section
         else if inSection then
           (if trim line = [] \<and> section \<noteq> [] \<and> nextNonEmptyStartsSection rest
            then section
            else extractLoop keywords rest inSection (section @ [l]))
         else extractLoop keywords rest inSection section)"

definition notFound :: string where
  "notFound = ''Content not found in expected format''"

text \<open>
  Line 135: \<open>section.join('\n').trim() || 'Content not found in expected format'\<close>.
  The empty string is the only falsy string.
\<close>

definition extractSection :: "string list \<Rightarrow> string list \<Rightarrow> string" where
  "extractSection lines keywords =
     (let s = trim (joinLines (extractLoop keywords lines False []))
      in if s = [] then notFound else s)"

text \<open>The object built in the \<open>catch\<close> block, lines 88 to 93.\<close>

record ParsedContent =
  resolutionCriteria :: string
  description :: string
  edgeCases :: string

definition heuristicSplit :: "string \<Rightarrow> ParsedContent" where
  "heuristicSplit content =
     (let lines = splitLines content
      in \<lparr> resolutionCriteria = extractSection lines [''resolution'', ''criteria''],
           description = extractSection lines [''description''],
           edgeCases = extractSection lines [''edge'', ''cases''] \<rparr>)"

section \<open>Decoded values and \<open>JSON.parse\<close>\<close>

text \<open>
  A value returned by \<open>JSON.parse\<close>. A string value is the list of its UTF-16 code
  units, as numbers, since an escape \<open>\uXXXX\<close> can denote any of them. A number is kept
  as the text that denotes it: no claim reads its numeric value. An object keeps its
  members in the order of the text, duplicates included.
\<close>

datatype json =
    JNull
  | JBool bool
  | JNumber string
  | JString "nat list"
  | JArray "json list"
  | JObject "(nat list \<times> json) list"

definition units :: "string \<Rightarrow> nat list" where
  "units s = map of_char s"

text \<open>
  Reading the property \<open>k\<close> of a decoded value: of an object, the value of the last
  member named \<open>k\<close>; \<open>None\<close> is JavaScript's \<open>undefined\<close>, the result for an
  object without the key and for an array, string, number or boolean (none of which
  has a property with one of the three names the program reads). It is \<open>None\<close> for
  \<open>null\<close> as well, of which the program reads no property (the guard of line 198).
\<close>

fun property :: "json \<Rightarrow> string \<Rightarrow> json option" where
  "property (JObject members) k = map_of (rev members) (units k)"
| "property v k = None"

datatype token =
    TLBrace | TRBrace | TLBracket | TRBracket | TColon | TComma
  | TString "nat list" | TNumber string | TTrue | TFalse | TNull

definition isJsonSpace :: "char \<Rightarrow> bool" where
  "isJsonSpace c = (c \<in> set [CHR 0x20, CHR 0x09, CHR 0x0A, CHR 0x0D])"

definition isDigit :: "char \<Rightarrow> bool" where
  "isDigit c = (c \<in> set ''0123456789'')"

definition hexValue :: "char \<Rightarrow> nat option" where
  "hexValue c =
     (if c \<in> set ''0123456789'' then Some (of_char c - 48)
      else if c \<in> set ''abcdef'' then Some (of_char c - 87)
      else if c \<in> set ''ABCDEF'' then Some (of_char c - 55)
      else None)"

text \<open>The single-character escapes of a JSON string and the code unit each denotes.\<close>

definition escapeValue :: "char \<Rightarrow> nat option" where
  "escapeValue c =
     (if c = CHR 0x22 then Some 0x22
      else if c = CHR 0x5C then Some 0x5C
      else if c = CHR ''/'' then Some 0x2F
      else if c = CHR ''b'' then Some 0x08
      else if c = CHR ''f'' then Some 0x0C
      else if c = CHR ''n'' then Some 0x0A
      else if c = CHR ''r'' then Some 0x0D
      else if c = CHR ''t'' then Some 0x09
      else None)"

text \<open>
  The rest of a string token, after its opening quote: the code units it denotes and
  the text after its closing quote. A control character (below \<open>0x20\<close>), an unknown
  escape and a missing closing quote are syntax errors.
\<close>

fun lexString :: "string \<Rightarrow> (nat list \<times> string) option" where
  "lexString [] = None"
| "lexString (c # cs) =
     (if c = CHR 0x22 then Some ([], cs)
      else if c = CHR 0x5C then
        (case cs of
           [] \<Rightarrow> None
         | e # cs1 \<Rightarrow>
             if e = CHR ''u'' then
               (case cs1 of
                  h1 # h2 # h3 # h4 # cs2 \<Rightarrow>
                    (case (hexValue h1, hexValue h2, hexValue h3, hexValue h4) of
                       (Some d1, Some d2, Some d3, Some d4) \<Rightarrow>
                         map_option
                           (\<lambda>(us, rest). ((((d1 * 16 + d2) * 16 + d3) * 16 + d4) # us, rest))
                           (lexString cs2)
                     | _ \<Rightarrow> None)
                | _ \<Rightarrow> None)
             else
               (case escapeValue e of
                  None \<Rightarrow> None
                | Some u \<Rightarrow> map_option (\<lambda>(us, rest). (u # us, rest)) (lexString cs1)))
      else if (of_char c :: nat) < 0x20 then None
      else map_option (\<lambda>(us, rest). (of_char c # us, rest)) (lexString cs))"

text \<open>
  A number token at the head of the text, by the JSON grammar: an optional minus sign,
  \<open>0\<close> or a digit sequence, an optional fraction (a point and at least one digit), an
  optional exponent (\<open>e\<close> or \<open>E\<close>, an optional sign, at least one digit). The result
  is the token's text.
\<close>

definition lexNumber :: "string \<Rightarrow> string option" where
  "lexNumber s =
     (let sign = (if prefix ''-'' s then ''-'' else []);
          s1 = drop (length sign) s;
          ip = (if prefix ''0'' s1 then ''0'' else takeWhile isDigit s1);
          s2 = drop (length ip) s1;
          fr = (if prefix ''.'' s2 then CHR ''.'' # takeWhile isDigit (drop 1 s2) else []);
          s3 = drop (length fr) s2;
          ex = (if prefix ''e'' s3 \<or> prefix ''E'' s3 then
                  (let s4 = drop 1 s3;
                       sg = (if prefix ''+'' s4 \<or> prefix ''-'' s4 then take 1 s4 else [])
                   in take 1 s3 @ sg @ takeWhile isDigit (drop (length sg) s4))
                else [])
      in if ip = [] \<or> fr = ''.'' \<or> (ex \<noteq> [] \<and> \<not> isDigit (last ex)) then None
         else Some (sign @ ip @ fr @ ex))"

lemma lexString_shorter: "lexString cs = Some (us, rest) \<Longrightarrow> length rest < length cs"
proof (induction cs arbitrary: us rest rule: length_induct)
  case (1 cs)
  have IH: "\<And>ys us rest. length ys < length cs \<Longrightarrow> lexString ys = Some (us, rest)
              \<Longrightarrow> length rest < length ys"
    using "1.IH" by blast
  from "1.prems" show ?case
    by (cases cs) (auto split: if_splits list.splits option.splits dest!: IH [rotated]
        simp del: of_char_Char)
qed

function (sequential) tokenize :: "string \<Rightarrow> token list option" where
  "tokenize [] = Some []"
| "tokenize (c # cs) =
     (if isJsonSpace c then tokenize cs
      else if c = CHR ''{'' then map_option (Cons TLBrace) (tokenize cs)
      else if c = CHR ''}'' then map_option (Cons TRBrace) (tokenize cs)
      else if c = CHR ''['' then map_option (Cons TLBracket) (tokenize cs)
      else if c = CHR '']'' then map_option (Cons TRBracket) (tokenize cs)
      else if c = CHR '':'' then map_option (Cons TColon) (tokenize cs)
      else if c = CHR '','' then map_option (Cons TComma) (tokenize cs)
      else if c = CHR 0x22 then
        (case lexString cs of
           None \<Rightarrow> None
         | Some (us, rest) \<Rightarrow> map_option (Cons (TString us)) (tokenize rest))
      else if c = CHR ''-'' \<or> isDigit c then
        (case lexNumber (c # cs) of
           None \<Rightarrow> None
         | Some n \<Rightarrow> map_option (Cons (TNumber n)) (tokenize (drop (length n - 1) cs)))
      else if prefix ''true'' (c # cs) then map_option (Cons TTrue) (tokenize (drop 3 cs))
      else if prefix ''false'' (c # cs) then map_option (Cons TFalse) (tokenize (drop 4 cs))
      else if prefix ''null'' (c # cs) then map_option (Cons TNull) (tokenize (drop 3 cs))
      else None)"
  by pat_completeness auto
termination
  by (relation "measure length") (auto dest: lexString_shorter)

text \<open>
  The parser is a pushdown automaton over the tokens. A frame is an array or an object
  that is still open: the elements read so far, or the members read so far and the key
  whose value is awaited.
\<close>

datatype frame =
    InArray "json list"
  | InObject "(nat list \<times> json) list" "nat list"

datatype expect =
    Value
  | ValueOrClose
  | KeyOrClose
  | Key
  | Colon
  | CommaOrClose
  | Finished json

text \<open>A value is complete: it is the result, or it goes into the innermost open frame.\<close>

fun complete :: "json \<Rightarrow> frame list \<Rightarrow> expect \<times> frame list" where
  "complete v [] = (Finished v, [])"
| "complete v (InArray es # st) = (CommaOrClose, InArray (es @ [v]) # st)"
| "complete v (InObject ms k # st) = (CommaOrClose, InObject (ms @ [(k, v)]) k # st)"

fun startValue :: "token \<Rightarrow> frame list \<Rightarrow> (expect \<times> frame list) option" where
  "startValue TLBrace st = Some (KeyOrClose, InObject [] [] # st)"
| "startValue TLBracket st = Some (ValueOrClose, InArray [] # st)"
| "startValue (TString us) st = Some (complete (JString us) st)"
| "startValue (TNumber n) st = Some (complete (JNumber n) st)"
| "startValue TTrue st = Some (complete (JBool True) st)"
| "startValue TFalse st = Some (complete (JBool False) st)"
| "startValue TNull st = Some (complete JNull st)"
| "startValue t st = None"

fun closeFrame :: "token \<Rightarrow> frame list \<Rightarrow> (expect \<times> frame list) option" where
  "closeFrame TRBracket (InArray es # st) = Some (complete (JArray es) st)"
| "closeFrame TRBrace (InObject ms k # st) = Some (complete (JObject ms) st)"
| "closeFrame t st = None"

fun readKey :: "token \<Rightarrow> frame list \<Rightarrow> (expect \<times> frame list) option" where
  "readKey (TString k) (InObject ms k0 # st) = Some (Colon, InObject ms k # st)"
| "readKey t st = None"

fun parseStep :: "expect \<Rightarrow> frame list \<Rightarrow> token \<Rightarrow> (expect \<times> frame list) option" where
  "parseStep Value st t = startValue t st"
| "parseStep ValueOrClose st t = (if t = TRBracket then closeFrame t st else startValue t st)"
| "parseStep KeyOrClose st t = (if t = TRBrace then closeFrame t st else readKey t st)"
| "parseStep Key st t = readKey t st"
| "parseStep Colon st t = (if t = TColon then Some (Value, st) else None)"
| "parseStep CommaOrClose st t =
     (if t = TComma then
        (case st of
           InArray es # st1 \<Rightarrow> Some (Value, st)
         | InObject ms k # st1 \<Rightarrow> Some (Key, st)
         | [] \<Rightarrow> None)
      else closeFrame t st)"
| "parseStep (Finished v) st t = None"

fun parseTokens :: "expect \<Rightarrow> frame list \<Rightarrow> token list \<Rightarrow> json option" where
  "parseTokens e st [] = (case e of Finished v \<Rightarrow> Some v | _ \<Rightarrow> None)"
| "parseTokens e st (t # ts) =
     (case parseStep e st t of
        None \<Rightarrow> None
      | Some (e1, st1) \<Rightarrow> parseTokens e1 st1 ts)"

text \<open>\<open>JSON.parse(text)\<close>; \<open>None\<close> is the \<open>SyntaxError\<close> it throws.\<close>

definition JSON_parse :: "string \<Rightarrow> json option" where
  "JSON_parse s =
     (case tokenize s of
        None \<Rightarrow> None
      | Some ts \<Rightarrow> parseTokens Value [] ts)"

section \<open>The strict path and \<open>parseModelResponse\<close>\<close>

text \<open>
  Line 80: \<open>content.match(/```(?:json)?\s*(\{[\s\S]*\})\s*```/)\<close>, read for its
  first capture group. The pattern is matched by backtracking. A piece of the pattern
  is a function of the text that is left and of a continuation, which matches the rest
  of the pattern on what the piece leaves; \<open>None\<close> is failure, and a piece that can
  match in several ways tries them in the order of the regular-expression engine until
  the continuation succeeds.
\<close>

text \<open>The literal text \<open>p\<close>.\<close>

definition lit :: "string \<Rightarrow> string \<Rightarrow> (string \<Rightarrow> 'a option) \<Rightarrow> 'a option" where
  "lit p s k = (if prefix p s then k (drop (length p) s) else None)"

text \<open>\<open>(?:m)?\<close>: greedy, first with \<open>m\<close>, then without it.\<close>

definition optional ::
  "(string \<Rightarrow> (string \<Rightarrow> 'a option) \<Rightarrow> 'a option) \<Rightarrow> string \<Rightarrow> (string \<Rightarrow> 'a option)
     \<Rightarrow> 'a option" where
  "optional m s k = (case m s k of Some r \<Rightarrow> Some r | None \<Rightarrow> k s)"

text \<open>
  \<open>[P]*\<close> for a character class \<open>P\<close>: greedy, it takes one more character of the
  class first and gives it back when the rest then fails.
\<close>

fun star :: "(char \<Rightarrow> bool) \<Rightarrow> string \<Rightarrow> (string \<Rightarrow> 'a option) \<Rightarrow> 'a option" where
  "star P [] k = k []"
| "star P (c # cs) k =
     (if P c then (case star P cs k of Some r \<Rightarrow> Some r | None \<Rightarrow> k (c # cs))
      else k (c # cs))"

text \<open>
  The pattern with the match starting at the head of \<open>s\<close>. The class \<open>[\s\S]\<close> is
  every character. Group 1 opens at \<open>s3\<close> and closes at \<open>s6\<close>: the capture is what
  was taken between the two.
\<close>

definition patternAt :: "string \<Rightarrow> string option" where
  "patternAt s =
     lit ''```'' s (\<lambda>s1.
     optional (lit ''json'') s1 (\<lambda>s2.
     star isSpace s2 (\<lambda>s3.
     lit ''{'' s3 (\<lambda>s4.
     star (\<lambda>c. True) s4 (\<lambda>s5.
     lit ''}'' s5 (\<lambda>s6.
     star isSpace s6 (\<lambda>s7.
     lit ''```'' s7 (\<lambda>s8.
     Some (take (length s3 - length s6) s3)))))))))"

text \<open>
  \<open>match\<close> without the global flag returns the match at the leftmost position where
  the pattern matches; \<open>None\<close> is its \<open>null\<close>.
\<close>

fun jsonMatch :: "string \<Rightarrow> string option" where
  "jsonMatch [] = patternAt []"
| "jsonMatch (c # cs) =
     (case patternAt (c # cs) of
        Some captured \<Rightarrow> Some captured
      | None \<Rightarrow> jsonMatch cs)"

text \<open>
  The \<open>try\<close> block, lines 78 to 85; \<open>None\<close> is the exception that \<open>JSON.parse\<close>
  throws. Nothing else is checked: the decoded value is assigned as it is.
\<close>

definition tryParse :: "string \<Rightarrow> json option" where
  "tryParse content =
     (case jsonMatch content of
        Some captured \<Rightarrow> JSON_parse captured
      | None \<Rightarrow> JSON_parse content)"

text \<open>The object literal of the \<open>catch\<close> block as a value.\<close>

definition recordValue :: "ParsedContent \<Rightarrow> json" where
  "recordValue r =
     JObject [(units ''resolutionCriteria'', JString (units (resolutionCriteria r))),
              (units ''description'', JString (units (description r))),
              (units ''edgeCases'', JString (units (edgeCases r)))]"

text \<open>
  Lines 76 to 94 of \<open>handleSubmit\<close>: the value of \<open>parsedContent\<close> that is passed to
  \<open>setGeneratedContent\<close>, as a function of \<open>content\<close>. The specification calls it
  \<open>parseModelResponse\<close>.
\<close>

definition parseModelResponse :: "string \<Rightarrow> json" where
  "parseModelResponse content =
     (case tryParse content of
        Some v \<Rightarrow> v
      | None \<Rightarrow> recordValue (heuristicSplit content))"

section \<open>Vocabulary of the statements\<close>

text \<open>
  The keywords of the three calls of \<open>extractSection\<close> (lines 90 to 92) together: a
  line is a header of one of the three sections when it passes the test of line 112
  for this list.
\<close>

definition allKeywords :: "string list" where
  "allKeywords = [''resolution'', ''criteria''] @ [''description''] @ [''edge'', ''cases'']"

text \<open>
  A section of a text laid out in sections, for the keyword set \<open>kws\<close>: its header
  line passes the test of line 112 for \<open>kws\<close> and for no keyword of the other sets, it
  has at least one body line, and no body line passes the test for any keyword.
\<close>

definition wellFormedSection :: "string list \<Rightarrow> string \<Rightarrow> string list \<Rightarrow> bool" where
  "wellFormedSection kws header body =
     (isHeader kws (toLowerCase header)
      \<and> \<not> isHeader (filter (\<lambda>k. k \<notin> set kws) allKeywords) (toLowerCase header)
      \<and> body \<noteq> []
      \<and> (\<forall>l\<in>set body. \<not> isHeader allKeywords (toLowerCase l)))"

text \<open>
  A fenced block as a text: three backticks, the tag, white space, the body, white
  space, three backticks.
\<close>

definition fencedBlock :: "string \<Rightarrow> string \<Rightarrow> string \<Rightarrow> string \<Rightarrow> string" where
  "fencedBlock tag ws1 body ws2 = ''```'' @ tag @ ws1 @ body @ ws2 @ ''```''"

text \<open>Two collected sections that differ in trailing blank lines only.\<close>

definition sameUpToBlanks :: "string list \<Rightarrow> string list \<Rightarrow> bool" where
  "sameUpToBlanks xs ys =
     (\<exists>base b1 b2. xs = base @ b1 \<and> ys = base @ b2
        \<and> (\<forall>b\<in>set b1. trim b = []) \<and> (\<forall>b\<in>set b2. trim b = []))"

text \<open>
  The pattern of line 80 read without backtracking; \<open>patternAt_fenceAt\<close> below proves
  that the reading is exact. \<open>closesFence r\<close> is the tail of the pattern, \<open>\s*```\<close>,
  at the head of \<open>r\<close>.
\<close>

definition closesFence :: "string \<Rightarrow> bool" where
  "closesFence r = prefix ''```'' (dropWhile isSpace r)"

text \<open>
  \<open>[\s\S]*\}\<close> followed by the tail: the longest prefix of the text that ends with a
  closing brace before the tail.
\<close>

fun greedyBody :: "string \<Rightarrow> string option" where
  "greedyBody [] = None"
| "greedyBody (c # cs) =
     (case greedyBody cs of
        Some p \<Rightarrow> Some (c # p)
      | None \<Rightarrow> if c = CHR ''}'' \<and> closesFence cs then Some [c] else None)"

text \<open>
  The whole pattern at the head of the text: the tag is taken when it is there, the
  white space is taken whole, and the body is the longest one.
\<close>

definition fenceAt :: "string \<Rightarrow> string option" where
  "fenceAt s =
     (if prefix ''```'' s then
        (let s1 = drop 3 s;
             s2 = (if prefix ''json'' s1 then drop 4 s1 else s1);
             s3 = dropWhile isSpace s2
         in (case s3 of
               [] \<Rightarrow> None
             | b # body \<Rightarrow>
                 if b = CHR ''{'' then map_option (Cons b) (greedyBody body) else None))
      else None)"

section \<open>Properties of the text primitives and of the loop\<close>

lemma notFound_nonempty: "notFound \<noteq> []"
  by (simp add: notFound_def)

lemma toLowerChar_colon: "toLowerChar c = CHR '':'' \<longleftrightarrow> c = CHR '':''"
  by (cases c) (auto simp: isUpperChar_def)

lemma toLowerChar_hash: "toLowerChar c = CHR ''#'' \<longleftrightarrow> c = CHR ''#''"
  by (cases c) (auto simp: isUpperChar_def)

lemma isSpace_toLowerChar: "isSpace (toLowerChar c) = isSpace c"
  by (cases c) (auto simp: isUpperChar_def isSpace_def)

lemma str_includes_sublist: "str_includes s k = sublist k s"
  by (induction s) (simp_all add: sublist_Cons_right)

lemma str_includes_single: "str_includes s [c] \<longleftrightarrow> c \<in> set s"
  by (induction s) auto

lemma includes_colon_lower: "str_includes (toLowerCase l) '':'' \<longleftrightarrow> CHR '':'' \<in> set l"
  unfolding str_includes_single toLowerCase_def set_map image_iff
  using toLowerChar_colon by metis

lemma includes_hash_lower: "str_includes (toLowerCase l) ''#'' \<longleftrightarrow> CHR ''#'' \<in> set l"
  unfolding str_includes_single toLowerCase_def set_map image_iff
  using toLowerChar_hash by metis

lemma trim_empty_iff: "trim s = [] \<longleftrightarrow> (\<forall>c\<in>set s. isSpace c)"
proof
  assume "trim s = []"
  then have a: "\<forall>c\<in>set (dropWhile isSpace s). isSpace c"
    by (simp add: trim_def dropWhile_eq_Nil_conv)
  show "\<forall>c\<in>set s. isSpace c"
  proof (cases "dropWhile isSpace s")
    case Nil
    then show ?thesis by (simp add: dropWhile_eq_Nil_conv)
  next
    case (Cons x xs)
    then have "\<not> isSpace x" using hd_dropWhile [of isSpace s] by auto
    with a Cons show ?thesis by simp
  qed
next
  assume "\<forall>c\<in>set s. isSpace c"
  then have d: "dropWhile isSpace s = []" by (simp add: dropWhile_eq_Nil_conv)
  show "trim s = []" unfolding trim_def d by simp
qed

lemma trim_lower_empty: "trim (toLowerCase s) = [] \<longleftrightarrow> trim s = []"
  by (simp add: trim_empty_iff toLowerCase_def isSpace_toLowerChar)

lemma isHeader_marks: "isHeader kws (toLowerCase l) \<Longrightarrow> CHR '':'' \<in> set l \<or> CHR ''#'' \<in> set l"
  unfolding isHeader_def list_ex_iff includes_colon_lower includes_hash_lower by blast

lemma colon_not_space: "\<not> isSpace (CHR '':'')" "\<not> isSpace (CHR ''#'')"
  by (simp_all add: isSpace_def)

lemma blank_not_header: "trim l = [] \<Longrightarrow> \<not> isHeader kws (toLowerCase l)"
  using isHeader_marks colon_not_space trim_empty_iff by blast

lemma extractLoop_no_header:
  "\<forall>l\<in>set lines. \<not> isHeader kws (toLowerCase l) \<Longrightarrow> extractLoop kws lines False sec = sec"
  by (induction lines) (simp_all add: Let_def)

lemma isHeader_subset:
  "isHeader kws line \<Longrightarrow> set kws \<subseteq> set kws' \<Longrightarrow> isHeader kws' line"
  unfolding isHeader_def list_ex_iff by blast

lemma extractLoop_prefix: "prefix sec (extractLoop kws lines b sec)"
proof (induction lines arbitrary: b sec)
  case Nil
  then show ?case by simp
next
  case (Cons l lines)
  have "prefix sec (extractLoop kws lines b' (sec @ [l]))" for b'
    using Cons [of "sec @ [l]" b'] by (meson append_prefixD)
  with Cons show ?case by (simp add: Let_def)
qed

lemma lookahead_blanks:
  "\<forall>b\<in>set blanks. trim b = [] \<Longrightarrow> trim l \<noteq> [] \<Longrightarrow>
   nextNonEmptyStartsSection (blanks @ l # rest)
     = (CHR '':'' \<in> set l \<or> CHR ''#'' \<in> set l)"
  by (induction blanks) (simp_all add: includes_colon_lower includes_hash_lower)

lemma extractLoop_subset:
  "set (extractLoop kws lines b sec)
     \<subseteq> set sec \<union> {l \<in> set lines. \<not> isHeader kws (toLowerCase l)}"
proof (induction lines arbitrary: b sec)
  case Nil
  then show ?case by simp
next
  case (Cons l lines)
  show ?case
    using Cons [of True sec] Cons [of b "sec @ [l]"] Cons [of b sec]
    by (auto simp: Let_def)
qed

lemma splitLines_nonempty: "splitLines s \<noteq> []"
  by (induction s) (auto split: list.splits)

lemma splitLines_no_nl: "l \<in> set (splitLines s) \<Longrightarrow> CHR ''\<newline>'' \<notin> set l"
  by (induction s arbitrary: l) (auto split: list.splits if_splits)

lemma splitLines_single: "CHR ''\<newline>'' \<notin> set l \<Longrightarrow> splitLines l = [l]"
  by (induction l) auto

lemma splitLines_append_nl:
  "splitLines (x @ CHR ''\<newline>'' # y) = splitLines x @ splitLines y"
  by (induction x) (auto split: list.splits simp: splitLines_nonempty)

lemma splitLines_joinLines:
  "ls \<noteq> [] \<Longrightarrow> \<forall>l\<in>set ls. CHR ''\<newline>'' \<notin> set l \<Longrightarrow> splitLines (joinLines ls) = ls"
  by (induction ls rule: joinLines.induct)
     (simp_all add: splitLines_single splitLines_append_nl)

lemma splitLines_append:
  "splitLines (a @ b)
     = butlast (splitLines a) @ (last (splitLines a) @ hd (splitLines b)) # tl (splitLines b)"
proof (induction a)
  case Nil
  then show ?case using splitLines_nonempty [of b] by simp
next
  case (Cons c cs)
  show ?case
  proof (cases "c = CHR ''\<newline>''")
    case True
    with Cons show ?thesis by (simp add: splitLines_nonempty)
  next
    case False
    obtain x xs where S: "splitLines cs = x # xs"
      using splitLines_nonempty [of cs] by (cases "splitLines cs") auto
    show ?thesis
    proof (cases xs)
      case Nil
      with S Cons False show ?thesis by simp
    next
      case (Cons y ys)
      with S Cons.IH False show ?thesis by simp
    qed
  qed
qed

lemma lines_append_right:
  assumes "l' \<in> set (splitLines m)"
  shows "\<exists>l\<in>set (splitLines (m @ b)). sublist l' l"
proof -
  have ne: "splitLines m \<noteq> []" by (rule splitLines_nonempty)
  from assms have "l' \<in> set (butlast (splitLines m)) \<or> l' = last (splitLines m)"
    using ne by (metis append_butlast_last_id in_set_conv_decomp rotate1.simps(2) set_ConsD set_rotate1)
  then show ?thesis
  proof
    assume "l' \<in> set (butlast (splitLines m))"
    then have "l' \<in> set (splitLines (m @ b))" by (simp add: splitLines_append)
    then show ?thesis by blast
  next
    assume "l' = last (splitLines m)"
    then have "l' @ hd (splitLines b) \<in> set (splitLines (m @ b))"
      by (simp add: splitLines_append)
    moreover have "sublist l' (l' @ hd (splitLines b))" by simp
    ultimately show ?thesis by blast
  qed
qed

lemma lines_append_left:
  assumes "l' \<in> set (splitLines m)"
  shows "\<exists>l\<in>set (splitLines (a @ m)). sublist l' l"
proof -
  have ne: "splitLines m \<noteq> []" by (rule splitLines_nonempty)
  from assms ne have "l' = hd (splitLines m) \<or> l' \<in> set (tl (splitLines m))"
    by (cases "splitLines m") auto
  then show ?thesis
  proof
    assume "l' = hd (splitLines m)"
    then have "last (splitLines a) @ l' \<in> set (splitLines (a @ m))"
      by (simp add: splitLines_append)
    moreover have "sublist l' (last (splitLines a) @ l')" by simp
    ultimately show ?thesis by blast
  next
    assume "l' \<in> set (tl (splitLines m))"
    then have "l' \<in> set (splitLines (a @ m))" by (simp add: splitLines_append)
    then show ?thesis by blast
  qed
qed

lemma lines_of_sublist:
  assumes "sublist m s" and "l' \<in> set (splitLines m)"
  shows "\<exists>l\<in>set (splitLines s). sublist l' l"
proof -
  from assms(1) obtain a b where s: "s = a @ m @ b" by (auto simp: sublist_def)
  from lines_append_right [OF assms(2), of b] obtain l1
    where l1: "l1 \<in> set (splitLines (m @ b))" "sublist l' l1" by blast
  from lines_append_left [OF l1(1), of a] obtain l
    where l: "l \<in> set (splitLines (a @ m @ b))" "sublist l1 l" by blast
  from l1(2) l(2) have "sublist l' l" by (rule sublist_order.order_trans)
  with l(1) s show ?thesis by blast
qed

lemma sublist_trim: "sublist (trim s) s"
proof -
  have "sublist (dropWhile isSpace (rev (dropWhile isSpace s))) (rev (dropWhile isSpace s))"
    by simp
  then have "sublist (trim s) (dropWhile isSpace s)"
    by (simp add: trim_def sublist_rev_left)
  moreover have "sublist (dropWhile isSpace s) s" by simp
  ultimately show ?thesis by (rule sublist_order.order_trans)
qed

lemma isHeader_sublist:
  assumes "sublist l' l" and "isHeader kws (toLowerCase l')"
  shows "isHeader kws (toLowerCase l)"
proof -
  have m: "sublist (toLowerCase l') (toLowerCase l)"
    using assms(1) by (simp add: toLowerCase_def map_mono_sublist)
  have "str_includes (toLowerCase l) k" if "str_includes (toLowerCase l') k" for k
    using that m by (auto simp: str_includes_sublist intro: sublist_order.order_trans)
  with assms(2) show ?thesis
    unfolding isHeader_def list_ex_iff by blast
qed

lemma notFound_not_header: "\<not> isHeader kws (toLowerCase notFound)"
proof
  assume "isHeader kws (toLowerCase notFound)"
  then have "CHR '':'' \<in> set notFound \<or> CHR ''#'' \<in> set notFound" by (rule isHeader_marks)
  then show False by (simp add: notFound_def)
qed

lemma lookahead_all_blank:
  "\<forall>b\<in>set bs. trim b = [] \<Longrightarrow> \<not> nextNonEmptyStartsSection bs"
  by (induction bs) simp_all

lemma lookahead_skip_blank:
  "\<forall>b\<in>set bs. trim b = [] \<Longrightarrow>
   nextNonEmptyStartsSection (bs @ rest) = nextNonEmptyStartsSection rest"
  by (induction bs) simp_all

lemma lookahead_append:
  "\<exists>l\<in>set xs. trim l \<noteq> [] \<Longrightarrow>
   nextNonEmptyStartsSection (xs @ ys) = nextNonEmptyStartsSection xs"
  by (induction xs) auto

lemma extractLoop_blank_tail:
  "\<forall>b\<in>set bs. trim b = [] \<Longrightarrow> extractLoop kws bs True acc = acc @ bs"
proof (induction bs arbitrary: acc)
  case Nil
  then show ?case by simp
next
  case (Cons b bs)
  then have b: "trim b = []" and bs: "\<forall>b\<in>set bs. trim b = []" by auto
  from Cons.IH [OF bs, of "acc @ [b]"] b lookahead_all_blank [OF bs] show ?case
    by (simp add: Let_def blank_not_header)
qed

lemma extractLoop_skip_prefix:
  "\<forall>l\<in>set pre. \<not> isHeader kws (toLowerCase l) \<Longrightarrow>
   extractLoop kws (pre @ rest) False sec = extractLoop kws rest False sec"
  by (induction pre) (simp_all add: Let_def)

lemma sameUpToBlanks_refl: "sameUpToBlanks xs xs"
  unfolding sameUpToBlanks_def by (rule exI [of _ xs], rule exI [of _ "[]"], rule exI [of _ "[]"]) simp

lemma sameUpToBlanks_right: "\<forall>b\<in>set bs. trim b = [] \<Longrightarrow> sameUpToBlanks xs (xs @ bs)"
  unfolding sameUpToBlanks_def by (rule exI [of _ xs], rule exI [of _ "[]"], rule exI [of _ bs]) simp

lemma collect_before_header:
  assumes sep: "sep \<noteq> []" "\<forall>b\<in>set sep. trim b = []"
    and n: "CHR '':'' \<in> set n \<or> CHR ''#'' \<in> set n"
    and body: "\<forall>l\<in>set body. \<not> isHeader kws (toLowerCase l)"
    and ne: "acc \<noteq> [] \<or> body \<noteq> []"
  shows "sameUpToBlanks (extractLoop kws (body @ sep @ n # rest) True acc)
           (extractLoop kws body True acc)"
  using body ne
proof (induction body arbitrary: acc)
  case Nil
  then have acc: "acc \<noteq> []" by simp
  from sep obtain b bs where s: "sep = b # bs" by (cases sep) auto
  with sep have b: "trim b = []" and bs: "\<forall>b\<in>set bs. trim b = []" by auto
  have nb: "trim n \<noteq> []"
    using n colon_not_space trim_empty_iff by blast
  have "nextNonEmptyStartsSection (bs @ n # rest)"
    using lookahead_blanks [OF bs nb] n by simp
  with b acc show ?case
    by (simp add: s Let_def blank_not_header trim_lower_empty sameUpToBlanks_refl)
next
  case (Cons l body)
  then have IH: "\<And>acc. acc \<noteq> [] \<Longrightarrow>
                   sameUpToBlanks (extractLoop kws (body @ sep @ n # rest) True acc)
                     (extractLoop kws body True acc)"
    and nh: "\<not> isHeader kws (toLowerCase l)" by auto
  have nb: "trim n \<noteq> []"
    using n colon_not_space trim_empty_iff by blast
  have post: "nextNonEmptyStartsSection (sep @ n # rest)"
    using lookahead_blanks [OF sep(2) nb] n by simp
  show ?case
  proof (cases "\<forall>b\<in>set body. trim b = []")
    case True
    have la1: "nextNonEmptyStartsSection (body @ sep @ n # rest)"
      using lookahead_skip_blank [OF True] post by simp
    have la2: "\<not> nextNonEmptyStartsSection body"
      by (rule lookahead_all_blank [OF True])
    have r: "extractLoop kws body True (acc @ [l]) = (acc @ [l]) @ body"
      by (rule extractLoop_blank_tail [OF True])
    show ?thesis
    proof (cases "trim l = [] \<and> acc \<noteq> []")
      case blank: True
      have "sameUpToBlanks acc (acc @ l # body)"
        using sameUpToBlanks_right [of "l # body" acc] True blank by simp
      with blank nh la1 la2 r show ?thesis
        by (simp add: Let_def trim_lower_empty)
    next
      case False
      with nh IH [of "acc @ [l]"] show ?thesis
        by (auto simp: Let_def trim_lower_empty)
    qed
  next
    case False
    then have "nextNonEmptyStartsSection (body @ sep @ n # rest)
                = nextNonEmptyStartsSection body"
      by (intro lookahead_append) blast
    with nh IH [of "acc @ [l]"] show ?thesis
      by (simp add: Let_def sameUpToBlanks_refl)
  qed
qed

lemma joinLines_append:
  "xs \<noteq> [] \<Longrightarrow> ys \<noteq> [] \<Longrightarrow>
   joinLines (xs @ ys) = joinLines xs @ CHR ''\<newline>'' # joinLines ys"
  by (induction xs rule: joinLines.induct) (auto simp: neq_Nil_conv)

lemma joinLines_blank:
  "\<forall>b\<in>set bs. trim b = [] \<Longrightarrow> \<forall>c\<in>set (joinLines bs). isSpace c"
  by (induction bs rule: joinLines.induct) (auto simp: trim_empty_iff isSpace_def)

lemma trim_append_space:
  assumes "\<forall>c\<in>set w. isSpace c"
  shows "trim (s @ w) = trim s"
proof (cases "\<forall>c\<in>set s. isSpace c")
  case True
  with assms have "trim (s @ w) = []" "trim s = []"
    by (auto simp: trim_empty_iff)
  then show ?thesis by simp
next
  case False
  then have d: "dropWhile isSpace (s @ w) = dropWhile isSpace s @ w"
    by (auto simp: dropWhile_append1)
  have "dropWhile isSpace (rev w @ rev (dropWhile isSpace s))
          = dropWhile isSpace (rev (dropWhile isSpace s))"
    using assms by (intro dropWhile_append2) simp
  then show ?thesis by (simp add: trim_def d)
qed

lemma trim_join_blank_tail:
  assumes "\<forall>b\<in>set bs. trim b = []"
  shows "trim (joinLines (base @ bs)) = trim (joinLines base)"
proof (cases "bs = []")
  case True
  then show ?thesis by simp
next
  case bs: False
  have sp: "\<forall>c\<in>set (joinLines bs). isSpace c" by (rule joinLines_blank [OF assms])
  show ?thesis
  proof (cases "base = []")
    case True
    from sp have "trim (joinLines bs) = []" by (simp only: trim_empty_iff)
    moreover have "trim (joinLines []) = []" by (simp add: trim_def)
    ultimately show ?thesis using True by simp
  next
    case False
    have "\<forall>c\<in>set (CHR ''\<newline>'' # joinLines bs). isSpace c"
      using sp by (simp add: isSpace_def)
    then have "trim (joinLines base @ CHR ''\<newline>'' # joinLines bs) = trim (joinLines base)"
      by (rule trim_append_space)
    with False bs show ?thesis by (simp add: joinLines_append)
  qed
qed

lemma sameUpToBlanks_trim:
  "sameUpToBlanks xs ys \<Longrightarrow> trim (joinLines xs) = trim (joinLines ys)"
  unfolding sameUpToBlanks_def by (auto simp: trim_join_blank_tail)

lemma extractSection_unfold:
  assumes pre: "\<forall>l\<in>set pre. \<not> isHeader kws (toLowerCase l)"
    and hdr: "isHeader kws (toLowerCase h)"
    and same: "sameUpToBlanks (extractLoop kws (body @ post) True [])
                 (extractLoop kws body True [])"
  shows "extractSection (pre @ h # body @ post) kws = extractSection (h # body) kws"
proof -
  have "extractLoop kws (pre @ h # body @ post) False []
          = extractLoop kws (h # body @ post) False []"
    by (rule extractLoop_skip_prefix [OF pre])
  then have l: "extractLoop kws (pre @ h # body @ post) False []
                  = extractLoop kws (body @ post) True []"
    using hdr by (simp add: Let_def)
  have r: "extractLoop kws (h # body) False [] = extractLoop kws body True []"
    using hdr by (simp add: Let_def)
  from same have "trim (joinLines (extractLoop kws (body @ post) True []))
               = trim (joinLines (extractLoop kws body True []))"
    by (rule sameUpToBlanks_trim)
  with l r show ?thesis by (simp add: extractSection_def)
qed

lemma extractSection_before_header:
  assumes pre: "\<forall>l\<in>set pre. \<not> isHeader kws (toLowerCase l)"
    and hdr: "isHeader kws (toLowerCase h)"
    and body: "\<forall>l\<in>set body. \<not> isHeader kws (toLowerCase l)" "body \<noteq> []"
    and sep: "sep \<noteq> []" "\<forall>b\<in>set sep. trim b = []"
    and n: "CHR '':'' \<in> set n \<or> CHR ''#'' \<in> set n"
  shows "extractSection (pre @ h # body @ sep @ n # rest) kws = extractSection (h # body) kws"
proof -
  have "sameUpToBlanks (extractLoop kws (body @ sep @ n # rest) True [])
          (extractLoop kws body True [])"
    using sep n body(1) by (rule collect_before_header) (simp add: body(2))
  with pre hdr show ?thesis by (rule extractSection_unfold)
qed

lemma extractSection_at_end:
  assumes pre: "\<forall>l\<in>set pre. \<not> isHeader kws (toLowerCase l)"
    and hdr: "isHeader kws (toLowerCase h)"
    and body: "\<forall>l\<in>set body. \<not> isHeader kws (toLowerCase l)"
  shows "extractSection (pre @ h # body) kws = extractSection (h # body) kws"
proof -
  have "sameUpToBlanks (extractLoop kws (body @ []) True []) (extractLoop kws body True [])"
    by (simp add: sameUpToBlanks_refl)
  with pre hdr have "extractSection (pre @ h # body @ []) kws = extractSection (h # body) kws"
    by (rule extractSection_unfold)
  then show ?thesis by simp
qed

text \<open>A well-formed section of another keyword set has no header of this set.\<close>

lemma foreign_section:
  assumes "wellFormedSection kws' h b" and "set kws \<subseteq> set allKeywords"
    and "set kws \<inter> set kws' = {}"
  shows "\<forall>l\<in>set (h # b). \<not> isHeader kws (toLowerCase l)"
proof -
  have "set kws \<subseteq> set (filter (\<lambda>k. k \<notin> set kws') allKeywords)"
    using assms(2,3) by auto
  then have "\<not> isHeader kws (toLowerCase h)"
    using assms(1) isHeader_subset unfolding wellFormedSection_def by blast
  moreover have "\<forall>l\<in>set b. \<not> isHeader kws (toLowerCase l)"
    using assms(1,2) isHeader_subset unfolding wellFormedSection_def by blast
  ultimately show ?thesis by simp
qed

lemma own_section:
  assumes "wellFormedSection kws h b" and "set kws \<subseteq> set allKeywords"
  shows "isHeader kws (toLowerCase h)" "b \<noteq> []"
    "\<forall>l\<in>set b. \<not> isHeader kws (toLowerCase l)"
    "CHR '':'' \<in> set h \<or> CHR ''#'' \<in> set h"
  using assms isHeader_subset isHeader_marks unfolding wellFormedSection_def by blast+

lemma blank_lines_no_header:
  "\<forall>b\<in>set sep. trim b = [] \<Longrightarrow> \<forall>l\<in>set sep. \<not> isHeader kws (toLowerCase l)"
  using blank_not_header by blast

text \<open>The section in first, second and third position of a text of three sections.\<close>

lemma section_first:
  assumes own: "wellFormedSection kws h b" "set kws \<subseteq> set allKeywords"
    and nxt: "CHR '':'' \<in> set h2 \<or> CHR ''#'' \<in> set h2"
    and sep: "sep1 \<noteq> []" "\<forall>x\<in>set sep1. trim x = []"
  shows "extractSection ((h # b) @ sep1 @ (h2 # b2) @ rest) kws = extractSection (h # b) kws"
proof -
  have "extractSection ([] @ h # b @ sep1 @ h2 # (b2 @ rest)) kws
          = extractSection (h # b) kws"
    using own_section(1,3,2) [OF own] sep nxt
    by (intro extractSection_before_header) simp_all
  then show ?thesis by simp
qed

lemma section_second:
  assumes own: "wellFormedSection kws h b" "set kws \<subseteq> set allKeywords"
    and before: "\<forall>l\<in>set (h1 # b1). \<not> isHeader kws (toLowerCase l)"
    and nxt: "CHR '':'' \<in> set h3 \<or> CHR ''#'' \<in> set h3"
    and sep: "\<forall>x\<in>set sep1. trim x = []" "sep2 \<noteq> []" "\<forall>x\<in>set sep2. trim x = []"
  shows "extractSection ((h1 # b1) @ sep1 @ (h # b) @ sep2 @ (h3 # b3)) kws
           = extractSection (h # b) kws"
proof -
  have pre: "\<forall>l\<in>set ((h1 # b1) @ sep1). \<not> isHeader kws (toLowerCase l)"
    using before blank_lines_no_header [OF sep(1)] by auto
  have "extractSection (((h1 # b1) @ sep1) @ h # b @ sep2 @ h3 # b3) kws
          = extractSection (h # b) kws"
    using pre own_section(1,3,2) [OF own] sep(2,3) nxt
    by (rule extractSection_before_header)
  then show ?thesis by simp
qed

lemma section_third:
  assumes own: "wellFormedSection kws h b" "set kws \<subseteq> set allKeywords"
    and before: "\<forall>l\<in>set (h1 # b1). \<not> isHeader kws (toLowerCase l)"
      "\<forall>l\<in>set (h2 # b2). \<not> isHeader kws (toLowerCase l)"
    and sep: "\<forall>x\<in>set sep1. trim x = []" "\<forall>x\<in>set sep2. trim x = []"
  shows "extractSection ((h1 # b1) @ sep1 @ (h2 # b2) @ sep2 @ (h # b)) kws
           = extractSection (h # b) kws"
proof -
  have pre: "\<forall>l\<in>set ((h1 # b1) @ sep1 @ (h2 # b2) @ sep2). \<not> isHeader kws (toLowerCase l)"
    using before blank_lines_no_header [OF sep(1)] blank_lines_no_header [OF sep(2)]
    by auto
  have "extractSection (((h1 # b1) @ sep1 @ (h2 # b2) @ sep2) @ h # b) kws
          = extractSection (h # b) kws"
    using pre own_section(1,3) [OF own]
    by (rule extractSection_at_end)
  then show ?thesis by simp
qed

lemma three_in_order:
  assumes wf: "wellFormedSection k1 h1 b1" "wellFormedSection k2 h2 b2"
      "wellFormedSection k3 h3 b3"
    and sub: "set k1 \<subseteq> set allKeywords" "set k2 \<subseteq> set allKeywords"
      "set k3 \<subseteq> set allKeywords"
    and dis: "set k1 \<inter> set k2 = {}" "set k1 \<inter> set k3 = {}" "set k2 \<inter> set k3 = {}"
    and sep: "sep1 \<noteq> []" "\<forall>x\<in>set sep1. trim x = []" "sep2 \<noteq> []" "\<forall>x\<in>set sep2. trim x = []"
  shows "extractSection ((h1 # b1) @ sep1 @ (h2 # b2) @ sep2 @ (h3 # b3)) k1
           = extractSection (h1 # b1) k1"
    and "extractSection ((h1 # b1) @ sep1 @ (h2 # b2) @ sep2 @ (h3 # b3)) k2
           = extractSection (h2 # b2) k2"
    and "extractSection ((h1 # b1) @ sep1 @ (h2 # b2) @ sep2 @ (h3 # b3)) k3
           = extractSection (h3 # b3) k3"
proof -
  have d: "set k2 \<inter> set k1 = {}" "set k3 \<inter> set k1 = {}" "set k3 \<inter> set k2 = {}"
    using dis by auto
  show "extractSection ((h1 # b1) @ sep1 @ (h2 # b2) @ sep2 @ (h3 # b3)) k1
          = extractSection (h1 # b1) k1"
    using wf(1) sub(1) own_section(4) [OF wf(2) sub(2)] sep(1,2)
    by (rule section_first)
  show "extractSection ((h1 # b1) @ sep1 @ (h2 # b2) @ sep2 @ (h3 # b3)) k2
          = extractSection (h2 # b2) k2"
    using wf(2) sub(2) foreign_section [OF wf(1) sub(2) d(1)]
      own_section(4) [OF wf(3) sub(3)] sep(2,3,4)
    by (rule section_second)
  show "extractSection ((h1 # b1) @ sep1 @ (h2 # b2) @ sep2 @ (h3 # b3)) k3
          = extractSection (h3 # b3) k3"
    using wf(3) sub(3) foreign_section [OF wf(1) sub(3) d(2)]
      foreign_section [OF wf(2) sub(3) d(3)] sep(2,4)
    by (rule section_third)
qed

lemma mset3_cases:
  assumes "mset [a, b, c] = mset [x, y, z]"
  shows "(a = x \<and> b = y \<and> c = z) \<or> (a = x \<and> b = z \<and> c = y)
       \<or> (a = y \<and> b = x \<and> c = z) \<or> (a = y \<and> b = z \<and> c = x)
       \<or> (a = z \<and> b = x \<and> c = y) \<or> (a = z \<and> b = y \<and> c = x)"
  using assms
  by (auto simp: add_eq_conv_ex add_mset_eq_singleton_iff)

section \<open>Properties of the pattern match and of decoded values\<close>

lemma star_space:
  assumes "\<And>c cs. isSpace c \<Longrightarrow> k (c # cs) = None"
  shows "star isSpace s k = k (dropWhile isSpace s)"
proof (induction s)
  case Nil
  then show ?case by simp
next
  case (Cons c cs)
  then show ?case using assms [of c cs] by (simp split: option.splits)
qed

lemma tail_match:
  "star isSpace s6 (\<lambda>s7. lit ''```'' s7 (\<lambda>s8. Some x))
     = (if closesFence s6 then Some x else None)"
proof -
  have "star isSpace s6 (\<lambda>s7. lit ''```'' s7 (\<lambda>s8. Some x))
          = lit ''```'' (dropWhile isSpace s6) (\<lambda>s8. Some x)"
    by (rule star_space) (auto simp: lit_def isSpace_def)
  then show ?thesis by (simp add: lit_def closesFence_def)
qed

lemma star_any:
  "star (\<lambda>c. True) t (\<lambda>s5. lit ''}'' s5 (\<lambda>s6. if closesFence s6 then Some (F s6) else None))
     = (case greedyBody t of Some p \<Rightarrow> Some (F (drop (length p) t)) | None \<Rightarrow> None)"
proof (induction t)
  case Nil
  then show ?case by (simp add: lit_def)
next
  case (Cons c cs)
  then show ?case by (auto simp: lit_def split: option.splits)
qed

lemma greedyBody_prefix: "greedyBody t = Some p \<Longrightarrow> prefix p t"
  by (induction t arbitrary: p) (auto split: option.splits if_splits)

lemma brace_then_body:
  "lit ''{'' s3 (\<lambda>s4. star (\<lambda>c. True) s4 (\<lambda>s5. lit ''}'' s5 (\<lambda>s6.
       star isSpace s6 (\<lambda>s7. lit ''```'' s7 (\<lambda>s8. Some (take (length s3 - length s6) s3))))))
     = (case s3 of [] \<Rightarrow> None
        | b # body \<Rightarrow> if b = CHR ''{'' then map_option (Cons b) (greedyBody body) else None)"
proof -
  have e: "lit ''{'' s3 (\<lambda>s4. star (\<lambda>c. True) s4 (\<lambda>s5. lit ''}'' s5 (\<lambda>s6.
       star isSpace s6 (\<lambda>s7. lit ''```'' s7 (\<lambda>s8. Some (take (length s3 - length s6) s3))))))
     = lit ''{'' s3 (\<lambda>s4. case greedyBody s4 of
           Some p \<Rightarrow> Some (take (length s3 - length (drop (length p) s4)) s3)
         | None \<Rightarrow> None)"
    by (simp only: tail_match star_any)
  show ?thesis
  proof (cases s3)
    case Nil
    then show ?thesis unfolding e by (simp add: lit_def)
  next
    case (Cons b body)
    show ?thesis
    proof (cases "b = CHR ''{''")
      case False
      with Cons show ?thesis unfolding e by (simp add: lit_def)
    next
      case True
      have "take (Suc (length body) - (length body - length p)) (b # body) = b # p"
        if "greedyBody body = Some p" for p
      proof -
        from that have "prefix p body" by (rule greedyBody_prefix)
        then obtain r where "body = p @ r" by (auto simp: prefix_def)
        then show ?thesis by simp
      qed
      with Cons True show ?thesis unfolding e
        by (simp add: lit_def split: option.splits)
    qed
  qed
qed

lemma patternAt_fenceAt: "patternAt s = fenceAt s"
proof -
  define k3 :: "string \<Rightarrow> string option" where
    "k3 = (\<lambda>s3. case s3 of [] \<Rightarrow> None
            | b # body \<Rightarrow> if b = CHR ''{'' then map_option (Cons b) (greedyBody body) else None)"
  have k3_space: "k3 (c # cs) = None" if "isSpace c" for c cs
    using that by (auto simp: k3_def isSpace_def)
  have k2: "star isSpace s2 k3 = k3 (dropWhile isSpace s2)" for s2
    by (rule star_space) (rule k3_space)
  have "patternAt s = lit ''```'' s (\<lambda>s1. optional (lit ''json'') s1 (\<lambda>s2. star isSpace s2 k3))"
    by (simp only: patternAt_def brace_then_body k3_def)
  then have p: "patternAt s
      = lit ''```'' s (\<lambda>s1. optional (lit ''json'') s1 (\<lambda>s2. k3 (dropWhile isSpace s2)))"
    by (simp only: k2)
  define t where "t = drop 3 s"
  have l3: "lit ''```'' s k = (if prefix ''```'' s then k t else None)" for k :: "string \<Rightarrow> string option"
    by (simp add: lit_def t_def eval_nat_numeral)
  have l4: "lit ''json'' t k = (if prefix ''json'' t then k (drop 4 t) else None)"
    for k :: "string \<Rightarrow> string option"
    by (simp add: lit_def eval_nat_numeral)
  have f: "fenceAt s = (if prefix ''```'' s
             then k3 (dropWhile isSpace (if prefix ''json'' t then drop 4 t else t)) else None)"
    by (simp only: fenceAt_def k3_def Let_def t_def)
  have j: "k3 (dropWhile isSpace t) = None" if "prefix ''json'' t"
  proof -
    from that obtain r where "t = ''json'' @ r" by (auto simp: prefix_def)
    then show ?thesis by (simp add: k3_def isSpace_def)
  qed
  show ?thesis
  proof (cases "prefix ''```'' s")
    case False
    then show ?thesis by (simp only: p l3 f if_False)
  next
    case True
    show ?thesis
    proof (cases "prefix ''json'' t")
      case False
      with True show ?thesis
        by (simp only: p l3 f l4 optional_def if_True if_False option.case)
    next
      case json: True
      have "(case k3 (dropWhile isSpace (drop 4 t)) of Some r \<Rightarrow> Some r
              | None \<Rightarrow> k3 (dropWhile isSpace t)) = k3 (dropWhile isSpace (drop 4 t))"
        using j [OF json] by (cases "k3 (dropWhile isSpace (drop 4 t))") simp_all
      with True json show ?thesis
        by (simp only: p l3 f l4 optional_def if_True)
    qed
  qed
qed

lemma jsonMatch_Nil: "jsonMatch [] = None"
  by (simp add: patternAt_fenceAt fenceAt_def)

lemma jsonMatch_Cons:
  "jsonMatch (c # cs)
     = (case fenceAt (c # cs) of Some captured \<Rightarrow> Some captured | None \<Rightarrow> jsonMatch cs)"
  by (simp add: patternAt_fenceAt)

lemma closesFence_includes: "closesFence r \<Longrightarrow> str_includes r ''```''"
proof -
  assume "closesFence r"
  then have "sublist ''```'' (dropWhile isSpace r)"
    unfolding closesFence_def by (rule prefix_imp_sublist)
  moreover have "sublist (dropWhile isSpace r) r" by simp
  ultimately have "sublist ''```'' r" by (rule sublist_order.order_trans)
  then show ?thesis by (simp only: str_includes_sublist)
qed

lemma greedyBody_no_fence: "\<not> str_includes s ''```'' \<Longrightarrow> greedyBody s = None"
proof (induction s)
  case Nil
  then show ?case by simp
next
  case (Cons c cs)
  then have n: "\<not> str_includes cs ''```''" by simp
  then have "\<not> closesFence cs" using closesFence_includes by blast
  with Cons.IH [OF n] show ?case by simp
qed

lemma greedyBody_skip:
  "greedyBody r = None \<Longrightarrow> \<forall>c\<in>set xs. c \<noteq> CHR ''}'' \<Longrightarrow> greedyBody (xs @ r) = None"
  by (induction xs) simp_all

lemma greedyBody_exact:
  "p \<noteq> [] \<Longrightarrow> last p = CHR ''}'' \<Longrightarrow> closesFence r \<Longrightarrow> greedyBody r = None
   \<Longrightarrow> greedyBody (p @ r) = Some p"
proof (induction p)
  case Nil
  then show ?case by simp
next
  case (Cons c p)
  show ?case
  proof (cases "p = []")
    case True
    with Cons.prems show ?thesis by simp
  next
    case False
    with Cons have "greedyBody (p @ r) = Some p" by simp
    then show ?thesis by simp
  qed
qed

lemma dropWhile_spaces:
  "\<forall>c\<in>set ws. isSpace c \<Longrightarrow> dropWhile isSpace (ws @ r) = dropWhile isSpace r"
  by (induction ws) simp_all

lemma fenceAt_open:
  assumes tag: "tag = [] \<or> tag = ''json''" and ws: "\<forall>c\<in>set ws. isSpace c"
  shows "fenceAt (''```'' @ tag @ ws @ CHR ''{'' # rest)
           = map_option (Cons (CHR ''{'')) (greedyBody rest)"
proof -
  have nj: "\<not> prefix ''json'' (ws @ CHR ''{'' # rest)"
  proof (cases ws)
    case Nil
    then show ?thesis by simp
  next
    case (Cons w ws')
    with ws have "isSpace w" by simp
    then have "w \<noteq> CHR ''j''" by (auto simp: isSpace_def)
    with Cons show ?thesis by simp
  qed
  have d: "dropWhile isSpace (ws @ CHR ''{'' # rest) = CHR ''{'' # rest"
    using dropWhile_spaces [OF ws] by (simp add: isSpace_def)
  from tag show ?thesis
  proof
    assume "tag = []"
    with nj d show ?thesis by (simp add: fenceAt_def)
  next
    assume "tag = ''json''"
    with d show ?thesis by (simp add: fenceAt_def)
  qed
qed

lemma fenceAt_backtick: "fenceAt (''```'' @ CHR 0x60 # x) = None"
  by (simp add: fenceAt_def Let_def isSpace_def)

lemma fenceAt_straddle:
  assumes "\<not> prefix ''```'' (c # pre)"
  shows "fenceAt (c # pre @ ''```'' @ x) = None"
proof (cases "prefix ''```'' (c # pre @ ''```'' @ x)")
  case False
  then show ?thesis by (simp only: fenceAt_def if_False)
next
  case True
  show ?thesis
  proof (cases pre)
    case Nil
    with True have "c # pre @ ''```'' @ x = ''```'' @ CHR 0x60 # x" by auto
    then show ?thesis by (simp only: fenceAt_backtick)
  next
    case (Cons d pre')
    show ?thesis
    proof (cases pre')
      case Nil
      with Cons True have "c # pre @ ''```'' @ x = ''```'' @ CHR 0x60 # CHR 0x60 # x" by auto
      then show ?thesis by (simp only: fenceAt_backtick)
    next
      case (Cons e pre'')
      with \<open>pre = d # pre'\<close> assms True show ?thesis by auto
    qed
  qed
qed

lemma jsonMatch_skip:
  "\<not> str_includes pre ''```'' \<Longrightarrow> jsonMatch (pre @ ''```'' @ x) = jsonMatch (''```'' @ x)"
proof (induction pre)
  case Nil
  then show ?case by simp
next
  case (Cons c pre)
  then have np: "\<not> prefix ''```'' (c # pre)" and n: "\<not> str_includes pre ''```''"
    by simp_all
  have "fenceAt (c # pre @ ''```'' @ x) = None" by (rule fenceAt_straddle [OF np])
  with Cons.IH [OF n] show ?case by (simp add: jsonMatch_Cons del: jsonMatch.simps)
qed

lemma jsonMatch_here: "fenceAt s = Some captured \<Longrightarrow> jsonMatch s = Some captured"
  by (cases s) (simp_all add: jsonMatch_Nil jsonMatch_Cons fenceAt_def del: jsonMatch.simps)

lemma brace_not_space: "\<not> isSpace (CHR ''}'')" "\<not> isSpace (CHR ''{'')" "\<not> isSpace (CHR 0x60)"
  by (simp_all add: isSpace_def)

lemma closesFence_spaces:
  "\<forall>c\<in>set ws. isSpace c \<Longrightarrow> closesFence (ws @ ''```'' @ post)"
  unfolding closesFence_def by (simp add: dropWhile_spaces brace_not_space)

lemma jsonMatch_fenced:
  assumes pre: "\<not> str_includes pre ''```''" and post: "\<not> str_includes post ''```''"
    and tag: "tag = [] \<or> tag = ''json''"
    and ws: "\<forall>c\<in>set ws1. isSpace c" "\<forall>c\<in>set ws2. isSpace c"
  shows "jsonMatch (pre @ ''```'' @ tag @ ws1 @ CHR ''{'' # inner @ ''}'' @ ws2 @ ''```'' @ post)
           = Some (CHR ''{'' # inner @ ''}'')"
proof -
  define r where "r = ws2 @ ''```'' @ post"
  have g0: "greedyBody post = None" by (rule greedyBody_no_fence [OF post])
  have "\<forall>c\<in>set ws2. c \<noteq> CHR ''}''"
    using ws(2) brace_not_space(1) by blast
  then have "\<forall>c\<in>set (ws2 @ ''```''). c \<noteq> CHR ''}''" by simp
  with g0 have "greedyBody ((ws2 @ ''```'') @ post) = None" by (rule greedyBody_skip)
  then have g1: "greedyBody r = None" by (simp add: r_def)
  have cf: "closesFence r" unfolding r_def by (rule closesFence_spaces [OF ws(2)])
  have "greedyBody ((inner @ ''}'') @ r) = Some (inner @ ''}'')"
    using cf g1 by (intro greedyBody_exact) simp_all
  then have "fenceAt (''```'' @ tag @ ws1 @ CHR ''{'' # (inner @ ''}'') @ r)
               = Some (CHR ''{'' # inner @ ''}'')"
    by (simp only: fenceAt_open [OF tag ws(1)] option.map)
  then have "jsonMatch (''```'' @ tag @ ws1 @ CHR ''{'' # (inner @ ''}'') @ r)
               = Some (CHR ''{'' # inner @ ''}'')"
    by (rule jsonMatch_here)
  then have "jsonMatch (pre @ ''```'' @ tag @ ws1 @ CHR ''{'' # (inner @ ''}'') @ r)
               = Some (CHR ''{'' # inner @ ''}'')"
    by (simp only: jsonMatch_skip [OF pre])
  then show ?thesis by (simp add: r_def)
qed

lemma property_recordValue:
  "property (recordValue r) ''resolutionCriteria'' = Some (JString (units (resolutionCriteria r)))"
  "property (recordValue r) ''description'' = Some (JString (units (description r)))"
  "property (recordValue r) ''edgeCases'' = Some (JString (units (edgeCases r)))"
  by (simp_all add: recordValue_def units_def)



section \<open>The claims about \<open>parseModelResponse\<close>\<close>

text \<open>
  C1, as the code has it. \<open>parseModelResponse\<close> returns a value for every text: the
  value that \<open>JSON.parse\<close> decoded on the strict path, whatever it is, or, when the
  strict path throws, the record of the heuristic splitter, in which the three fields
  are present and each is a non-empty string.
\<close>

theorem parseModelResponse_result:
  "(\<exists>v. tryParse content = Some v \<and> parseModelResponse content = v)
   \<or> (tryParse content = None
       \<and> parseModelResponse content = recordValue (heuristicSplit content)
       \<and> (\<exists>rc d e. rc \<noteq> [] \<and> d \<noteq> [] \<and> e \<noteq> []
             \<and> property (parseModelResponse content) ''resolutionCriteria''
                 = Some (JString (units rc))
             \<and> property (parseModelResponse content) ''description''
                 = Some (JString (units d))
             \<and> property (parseModelResponse content) ''edgeCases''
                 = Some (JString (units e))))"
proof (cases "tryParse content")
  case (Some v)
  then show ?thesis by (simp add: parseModelResponse_def)
next
  case None
  then have p: "parseModelResponse content = recordValue (heuristicSplit content)"
    by (simp add: parseModelResponse_def)
  have ne: "resolutionCriteria (heuristicSplit content) \<noteq> []"
    "description (heuristicSplit content) \<noteq> []"
    "edgeCases (heuristicSplit content) \<noteq> []"
    by (simp_all add: heuristicSplit_def extractSection_def Let_def notFound_nonempty)
  from None p ne show ?thesis
    by (auto simp only: property_recordValue)
qed

theorem parseModelResponse_result_witness:
  "tryParse ''I cannot help with that.'' = None
   \<and> parseModelResponse ''I cannot help with that.''
       = recordValue \<lparr> resolutionCriteria = ''Content not found in expected format'',
                        description = ''Content not found in expected format'',
                        edgeCases = ''Content not found in expected format'' \<rparr>"
proof -
  have h: "tryParse ''I cannot help with that.'' = None"
    by code_simp
  have s: "heuristicSplit ''I cannot help with that.''
             = \<lparr> resolutionCriteria = ''Content not found in expected format'',
                  description = ''Content not found in expected format'',
                  edgeCases = ''Content not found in expected format'' \<rparr>"
    by code_simp
  from parseModelResponse_result [of "''I cannot help with that.''"] h
  have "parseModelResponse ''I cannot help with that.''
          = recordValue (heuristicSplit ''I cannot help with that.'')"
    by simp
  with h s show ?thesis by simp
qed

text \<open>
  The claim as the specification states it fails: the text \<open>42\<close> decodes to a number
  and \<open>{}\<close> to an object without members; each is returned as it is, and none of the
  three fields is present in it.
\<close>

theorem parseModelResponse_result_counterexample:
  "parseModelResponse ''42'' = JNumber ''42''
   \<and> property (parseModelResponse ''42'') ''resolutionCriteria'' = None
   \<and> property (parseModelResponse ''42'') ''description'' = None
   \<and> property (parseModelResponse ''42'') ''edgeCases'' = None
   \<and> parseModelResponse ''{}'' = JObject []
   \<and> property (parseModelResponse ''{}'') ''description'' = None"
  by code_simp




text \<open>
  C3, as the code has it. The text holds a fenced block (three backticks, an optional
  \<open>json\<close> tag, white space, a body that begins and ends with a brace, white space,
  three backticks), \<open>JSON.parse\<close> decodes the body to \<open>v\<close>, and neither the prose
  before the block nor the prose after it has three backticks in a row. Then
  \<open>parseModelResponse\<close> returns \<open>v\<close>, so that the three fields of the result are the
  three values of the block.
\<close>

theorem fenced_json_is_returned:
  assumes pre: "\<not> str_includes pre ''```''" and post: "\<not> str_includes post ''```''"
    and tag: "tag = [] \<or> tag = ''json''"
    and ws: "\<forall>c\<in>set ws1. isSpace c" "\<forall>c\<in>set ws2. isSpace c"
    and body: "JSON_parse (CHR ''{'' # inner @ ''}'') = Some v"
  shows "parseModelResponse (pre @ fencedBlock tag ws1 (CHR ''{'' # inner @ ''}'') ws2 @ post) = v"
proof -
  have "jsonMatch (pre @ ''```'' @ tag @ ws1 @ CHR ''{'' # inner @ ''}'' @ ws2 @ ''```'' @ post)
          = Some (CHR ''{'' # inner @ ''}'')"
    using pre post tag ws by (rule jsonMatch_fenced)
  then have "jsonMatch (pre @ fencedBlock tag ws1 (CHR ''{'' # inner @ ''}'') ws2 @ post)
               = Some (CHR ''{'' # inner @ ''}'')"
    by (simp add: fencedBlock_def)
  with body show ?thesis by (simp add: parseModelResponse_def tryParse_def)
qed

theorem fenced_json_is_returned_witness:
  \<open>parseModelResponse
     ''```json\<newline>{"resolutionCriteria":"X","description":"Y","edgeCases":"Z"}\<newline>``` Good luck!''
   = JObject [(units ''resolutionCriteria'', JString (units ''X'')),
              (units ''description'', JString (units ''Y'')),
              (units ''edgeCases'', JString (units ''Z''))]\<close>
proof -
  have pre: "\<not> str_includes [] ''```''" by simp
  have post: "\<not> str_includes '' Good luck!'' ''```''" by code_simp
  have tag: "''json'' = [] \<or> ''json'' = ''json''" by simp
  have ws: "\<forall>c\<in>set ''\<newline>''. isSpace c" by (simp add: isSpace_def)
  have body: \<open>JSON_parse (CHR ''{'' # ''"resolutionCriteria":"X","description":"Y","edgeCases":"Z"'' @ ''}'')
      = Some (JObject [(units ''resolutionCriteria'', JString (units ''X'')),
              (units ''description'', JString (units ''Y'')),
              (units ''edgeCases'', JString (units ''Z''))])\<close>
    by code_simp
  from fenced_json_is_returned [OF pre post tag ws ws body] show ?thesis
    by (simp add: fencedBlock_def)
qed

text \<open>
  The claim as the specification states it fails: prose after the block that shows a
  fence of its own extends the greedy capture beyond the block; decoding fails, and the
  result is the heuristic record of the whole text, not the three values \<open>X\<close>, \<open>Y\<close>
  and \<open>Z\<close>.
\<close>

theorem fenced_json_counterexample:
  \<open>JSON_parse ''{"resolutionCriteria":"X","description":"Y","edgeCases":"Z"}''
     = Some (JObject [(units ''resolutionCriteria'', JString (units ''X'')),
              (units ''description'', JString (units ''Y'')),
              (units ''edgeCases'', JString (units ''Z''))])
   \<and> parseModelResponse
        ''```json\<newline>{"resolutionCriteria":"X","description":"Y","edgeCases":"Z"}\<newline>```\<newline>Write it as ```{...}``` next time.''
     = recordValue
         \<lparr> resolutionCriteria = ''```\<newline>Write it as ```{...}``` next time.'',
           description = ''```\<newline>Write it as ```{...}``` next time.'',
           edgeCases = ''```\<newline>Write it as ```{...}``` next time.'' \<rparr>\<close>
  by code_simp

text \<open>
  C4, as the code has it. One string is decoded, the capture of the leftmost match, and
  the match is greedy. With two fenced blocks in the text, no three backticks in a row
  in the prose before the first block and after the second one, the capture runs from
  the opening brace of the first block to the closing brace of the second block,
  through the closing fence of the first, the prose between them and the opening
  fence of the second: the later block is part of what is decoded.
\<close>

theorem first_match_runs_to_last_fence:
  assumes pre: "\<not> str_includes pre ''```''" and post: "\<not> str_includes post ''```''"
    and tag: "tag1 = [] \<or> tag1 = ''json''"
    and ws: "\<forall>c\<in>set ws1. isSpace c" "\<forall>c\<in>set ws4. isSpace c"
    and content: "content = pre @ fencedBlock tag1 ws1 (''{'' @ x @ ''}'') ws2 @ mid
                      @ fencedBlock tag2 ws3 (''{'' @ y @ ''}'') ws4 @ post"
    and captured: "captured = ''{'' @ x @ ''}'' @ ws2 @ ''```'' @ mid @ ''```'' @ tag2 @ ws3
                      @ ''{'' @ y @ ''}''"
  shows "jsonMatch content = Some captured \<and> tryParse content = JSON_parse captured"
proof -
  define inner where "inner = x @ ''}'' @ ws2 @ ''```'' @ mid @ ''```'' @ tag2 @ ws3 @ ''{'' @ y"
  have "jsonMatch (pre @ ''```'' @ tag1 @ ws1 @ CHR ''{'' # inner @ ''}'' @ ws4 @ ''```'' @ post)
          = Some (CHR ''{'' # inner @ ''}'')"
    using pre post tag ws by (rule jsonMatch_fenced)
  moreover have "pre @ ''```'' @ tag1 @ ws1 @ CHR ''{'' # inner @ ''}'' @ ws4 @ ''```'' @ post
                   = content"
    by (simp add: content inner_def fencedBlock_def)
  moreover have "CHR ''{'' # inner @ ''}'' = captured"
    by (simp add: captured inner_def)
  ultimately have "jsonMatch content = Some captured" by simp
  then show ?thesis by (simp add: tryParse_def)
qed

theorem first_match_runs_to_last_fence_witness:
  \<open>jsonMatch ''```json\<newline>{"a":1}\<newline>```\<newline>or\<newline>```json\<newline>{"b":2}\<newline>```''
     = Some ''{"a":1}\<newline>```\<newline>or\<newline>```json\<newline>{"b":2}''\<close>
proof -
  have pre: "\<not> str_includes [] ''```''" by simp
  have tag: "''json'' = [] \<or> ''json'' = ''json''" by simp
  have ws: "\<forall>c\<in>set ''\<newline>''. isSpace c" by (simp add: isSpace_def)
  from first_match_runs_to_last_fence [OF pre pre tag ws ws refl refl,
      of \<open>''"a":1''\<close> "''\<newline>''" "''\<newline>or\<newline>''" "''json''" "''\<newline>''" \<open>''"b":2''\<close>]
  show ?thesis by (simp add: fencedBlock_def)
qed

text \<open>
  The claim as the specification states it fails: the body of the first block alone
  decodes, the capture through the second block does not; and two texts with the same
  first block and different second blocks decode to different values.
\<close>

theorem first_match_counterexample:
  \<open>JSON_parse ''{"a":1}'' = Some (JObject [(units ''a'', JNumber ''1'')])
   \<and> jsonMatch ''```{"a":1}``` and ```{"b":2}```'' = Some ''{"a":1}``` and ```{"b":2}''
   \<and> tryParse ''```{"a":1}``` and ```{"b":2}```'' = None
   \<and> tryParse ''```{"a":"x}``` and ```{y"}```''
       = Some (JObject [(units ''a'', JString (units ''x}``` and ```{y''))])
   \<and> tryParse ''```{"a":"x}``` and ```{z"}```''
       = Some (JObject [(units ''a'', JString (units ''x}``` and ```{z''))])\<close>
  by code_simp

section \<open>The claims about the heuristic splitter\<close>

text \<open>
  C5, as the code has it. A run of blank lines is reached while a section is collected
  and at least one line has been collected. The look-ahead tests the next non-blank
  line for a colon or a hash sign only, not for a keyword: when the line has one of the
  two, the section is finalized at the blank run; when it has neither, the blank lines
  and the line are appended to the section and collection continues.
\<close>

theorem blank_run_lookahead:
  assumes "blanks \<noteq> []" and "\<forall>b\<in>set blanks. trim b = []"
    and "section \<noteq> []" and "trim l \<noteq> []"
  shows "extractLoop kws (blanks @ l # rest) True section
           = (if str_includes (toLowerCase l) '':'' \<or> str_includes (toLowerCase l) ''#''
              then section
              else extractLoop kws rest True (section @ blanks @ [l]))"
proof (cases "CHR '':'' \<in> set l \<or> CHR ''#'' \<in> set l")
  case True
  from assms(1) obtain b bs where bl: "blanks = b # bs" by (cases blanks) auto
  with assms(2) have b: "trim b = []" and bs: "\<forall>b\<in>set bs. trim b = []" by auto
  have "nextNonEmptyStartsSection (bs @ l # rest)"
    using lookahead_blanks [OF bs assms(4)] True by simp
  with b assms(3) True show ?thesis
    by (simp add: bl Let_def blank_not_header trim_lower_empty
        includes_colon_lower includes_hash_lower)
next
  case False
  have nh: "\<not> isHeader kws (toLowerCase l)"
    using False isHeader_marks by blast
  have step: "extractLoop kws (bs @ l # rest) True sec
                = extractLoop kws rest True (sec @ bs @ [l])"
    if "\<forall>b\<in>set bs. trim b = []" for bs sec
    using that
  proof (induction bs arbitrary: sec)
    case Nil
    with nh assms(4) show ?case by (simp add: Let_def trim_lower_empty)
  next
    case (Cons b bs)
    then have b: "trim b = []" and bs: "\<forall>b\<in>set bs. trim b = []" by auto
    have "\<not> nextNonEmptyStartsSection (bs @ l # rest)"
      using lookahead_blanks [OF bs assms(4)] False by simp
    with b Cons.IH [OF bs, of "sec @ [b]"] show ?case
      by (simp add: Let_def blank_not_header trim_lower_empty)
  qed
  from step [OF assms(2)] False show ?thesis
    by (simp add: includes_colon_lower includes_hash_lower)
qed

theorem blank_run_lookahead_witness:
  "extractLoop [''description''] ['''', ''Second paragraph.''] True [''First paragraph.'']
     = [''First paragraph.'', '''', ''Second paragraph.'']
   \<and> extractLoop [''description''] ['''', ''# Edge cases''] True [''First paragraph.'']
     = [''First paragraph.'']"
proof -
  have a: "extractLoop [''description''] ([''''] @ ''Second paragraph.'' # []) True
             [''First paragraph.'']
           = [''First paragraph.''] @ [''''] @ [''Second paragraph.'']"
    using blank_run_lookahead [of "['''']" "[''First paragraph.'']" "''Second paragraph.''"
        "[''description'']" "[]"]
    by (simp add: trim_def isSpace_def toLowerCase_def isUpperChar_def)
  have b: "extractLoop [''description''] ([''''] @ ''# Edge cases'' # []) True
             [''First paragraph.'']
           = [''First paragraph.'']"
    using blank_run_lookahead [of "['''']" "[''First paragraph.'']" "''# Edge cases''"
        "[''description'']" "[]"]
    by (simp add: trim_def isSpace_def toLowerCase_def isUpperChar_def)
  from a b show ?thesis by simp
qed

text \<open>
  The claim as the specification states it fails: \<open>Note: see the rules\<close> is not a
  header of any of the three keyword sets, yet the section ends at the blank line
  before it.
\<close>

theorem blank_run_counterexample:
  "\<not> isHeader allKeywords (toLowerCase ''Note: see the rules'')
   \<and> extractLoop [''description'']
        [''Description:'', ''First paragraph.'', '''', ''Note: see the rules''] False []
       = [''First paragraph.'']
   \<and> extractSection [''Description:'', ''First paragraph.'', '''', ''Note: see the rules'']
        [''description'']
       = ''First paragraph.''"
  by code_simp

text \<open>
  C6, as the code has it. \<open>extractSection\<close> is given its own keywords only. A line
  that is a header of another keyword set and not of its own, met while the section is
  collected, is appended to the section like any other line, and collection continues.
\<close>

theorem foreign_header_is_content:
  assumes "isHeader other (toLowerCase l)" and "\<not> isHeader kws (toLowerCase l)"
  shows "extractLoop kws (l # rest) True section = extractLoop kws rest True (section @ [l])
         \<and> prefix (section @ [l]) (extractLoop kws (l # rest) True section)"
proof -
  have "trim l \<noteq> []" using assms(1) blank_not_header by blast
  then have "extractLoop kws (l # rest) True section
               = extractLoop kws rest True (section @ [l])"
    using assms(2) by (simp add: Let_def trim_lower_empty)
  then show ?thesis by (simp add: extractLoop_prefix)
qed

theorem foreign_header_is_content_witness:
  "isHeader [''description''] (toLowerCase ''Description:'')
   \<and> \<not> isHeader [''resolution'', ''criteria''] (toLowerCase ''Description:'')
   \<and> extractLoop [''resolution'', ''criteria''] [''Description:'', ''About.''] True
        [''Resolves YES.'']
       = [''Resolves YES.'', ''Description:'', ''About.'']"
proof -
  have h1: "isHeader [''description''] (toLowerCase ''Description:'')"
    by code_simp
  have h2: "\<not> isHeader [''resolution'', ''criteria''] (toLowerCase ''Description:'')"
    by code_simp
  have e: "extractLoop [''resolution'', ''criteria''] [''About.''] True
             ([''Resolves YES.''] @ [''Description:''])
           = [''Resolves YES.'', ''Description:'', ''About.'']"
    by code_simp
  from foreign_header_is_content [OF h1 h2, of "[''About.'']" "[''Resolves YES.'']"] e h1 h2
  show ?thesis by simp
qed

text \<open>
  The claim as the specification states it fails: the header of the description
  section and the lines after it stay in the resolution criteria.
\<close>

theorem foreign_header_counterexample:
  "isHeader [''description''] (toLowerCase ''Description:'')
   \<and> extractSection
        [''Resolution Criteria:'', ''Resolves YES.'', ''Description:'', ''About the market.'']
        [''resolution'', ''criteria'']
       = ''Resolves YES.\<newline>Description:\<newline>About the market.''"
  by code_simp

text \<open>
  C7. When the strict path fails and no line of the text has a keyword of one of the
  three sets together with a colon or a hash sign, the value returned is the record of
  three sentinels: each of its three fields, read as a property, is the sentinel
  string.
\<close>

theorem no_keywords_all_sentinel:
  assumes strict: "tryParse content = None"
    and none: "\<forall>l\<in>set (splitLines content). \<not> isHeader allKeywords (toLowerCase l)"
  shows "parseModelResponse content
           = recordValue \<lparr> resolutionCriteria = notFound, description = notFound,
                            edgeCases = notFound \<rparr>
         \<and> property (parseModelResponse content) ''resolutionCriteria''
             = Some (JString (units notFound))
         \<and> property (parseModelResponse content) ''description''
             = Some (JString (units notFound))
         \<and> property (parseModelResponse content) ''edgeCases''
             = Some (JString (units notFound))"
proof -
  have sec: "extractSection (splitLines content) kws = notFound"
    if "set kws \<subseteq> set allKeywords" for kws
  proof -
    have "\<forall>l\<in>set (splitLines content). \<not> isHeader kws (toLowerCase l)"
      using none that isHeader_subset by blast
    then have "extractLoop kws (splitLines content) False [] = []"
      by (rule extractLoop_no_header)
    then show ?thesis by (simp add: extractSection_def trim_def)
  qed
  have h: "heuristicSplit content
          = \<lparr> resolutionCriteria = notFound, description = notFound, edgeCases = notFound \<rparr>"
    by (simp add: heuristicSplit_def Let_def sec allKeywords_def)
  have p: "parseModelResponse content = recordValue (heuristicSplit content)"
    using strict by (simp add: parseModelResponse_def)
  have f: "resolutionCriteria (heuristicSplit content) = notFound"
    "description (heuristicSplit content) = notFound"
    "edgeCases (heuristicSplit content) = notFound"
    by (simp_all only: h ParsedContent.simps)
  have "parseModelResponse content
          = recordValue \<lparr> resolutionCriteria = notFound, description = notFound,
                           edgeCases = notFound \<rparr>"
    by (simp only: p h)
  moreover have "property (parseModelResponse content) ''resolutionCriteria''
                   = Some (JString (units notFound))"
    by (simp only: p property_recordValue f)
  moreover have "property (parseModelResponse content) ''description''
                   = Some (JString (units notFound))"
    by (simp only: p property_recordValue f)
  moreover have "property (parseModelResponse content) ''edgeCases''
                   = Some (JString (units notFound))"
    by (simp only: p property_recordValue f)
  ultimately show ?thesis by (intro conjI)
qed

theorem no_keywords_all_sentinel_witness:
  "tryParse ''The model declined to answer.'' = None
   \<and> list_all (\<lambda>l. \<not> isHeader allKeywords (toLowerCase l))
        (splitLines ''The model declined to answer.'')
   \<and> parseModelResponse ''The model declined to answer.''
       = recordValue \<lparr> resolutionCriteria = ''Content not found in expected format'',
                        description = ''Content not found in expected format'',
                        edgeCases = ''Content not found in expected format'' \<rparr>
   \<and> property (parseModelResponse ''The model declined to answer.'') ''resolutionCriteria''
       = Some (JString (units ''Content not found in expected format''))
   \<and> property (parseModelResponse ''The model declined to answer.'') ''description''
       = Some (JString (units ''Content not found in expected format''))
   \<and> property (parseModelResponse ''The model declined to answer.'') ''edgeCases''
       = Some (JString (units ''Content not found in expected format''))"
proof -
  have h1: "tryParse ''The model declined to answer.'' = None"
    by code_simp
  have h2: "list_all (\<lambda>l. \<not> isHeader allKeywords (toLowerCase l))
              (splitLines ''The model declined to answer.'')"
    by code_simp
  from h2 have h3: "\<forall>l\<in>set (splitLines ''The model declined to answer.'').
                       \<not> isHeader allKeywords (toLowerCase l)"
    by (simp only: list_all_iff)
  note t = no_keywords_all_sentinel [OF h1 h3, unfolded notFound_def]
  from t h1 h2 show ?thesis
    by (intro conjI) (elim conjE, assumption)+
qed

text \<open>
  C8, as the code has it. The lines of the text are three sections in some order, with
  at least one blank line between two sections; each section is well formed for its
  keyword set (its header passes the test of line 112 for its own set only, it has a
  body line, no body line passes the test for any set). Then each field is what
  \<open>extractSection\<close> gives on the section of its keyword set alone, whatever the order
  of the sections is.
\<close>

theorem section_order_independence:
  assumes R: "wellFormedSection [''resolution'', ''criteria''] hR bR"
    and D: "wellFormedSection [''description''] hD bD"
    and E: "wellFormedSection [''edge'', ''cases''] hE bE"
    and perm: "mset [a, b, c] = mset [hR # bR, hD # bD, hE # bE]"
    and sep: "sep1 \<noteq> []" "\<forall>x\<in>set sep1. trim x = []"
      "sep2 \<noteq> []" "\<forall>x\<in>set sep2. trim x = []"
    and lines: "splitLines content = a @ sep1 @ b @ sep2 @ c"
  shows "heuristicSplit content
           = \<lparr> resolutionCriteria = extractSection (hR # bR) [''resolution'', ''criteria''],
                description = extractSection (hD # bD) [''description''],
                edgeCases = extractSection (hE # bE) [''edge'', ''cases''] \<rparr>"
proof -
  have sub: "set [''resolution'', ''criteria''] \<subseteq> set allKeywords"
    "set [''description''] \<subseteq> set allKeywords"
    "set [''edge'', ''cases''] \<subseteq> set allKeywords"
    by (simp_all add: allKeywords_def)
  have dis: "set [''resolution'', ''criteria''] \<inter> set [''description''] = {}"
    "set [''resolution'', ''criteria''] \<inter> set [''edge'', ''cases''] = {}"
    "set [''description''] \<inter> set [''edge'', ''cases''] = {}"
    "set [''description''] \<inter> set [''resolution'', ''criteria''] = {}"
    "set [''edge'', ''cases''] \<inter> set [''resolution'', ''criteria''] = {}"
    "set [''edge'', ''cases''] \<inter> set [''description''] = {}"
    by simp_all
  note t = three_in_order [OF _ _ _ _ _ _ _ _ _ sep]
  from mset3_cases [OF perm]
  consider (rde) "a = hR # bR" "b = hD # bD" "c = hE # bE"
    | (red) "a = hR # bR" "b = hE # bE" "c = hD # bD"
    | (dre) "a = hD # bD" "b = hR # bR" "c = hE # bE"
    | (der) "a = hD # bD" "b = hE # bE" "c = hR # bR"
    | (erd) "a = hE # bE" "b = hR # bR" "c = hD # bD"
    | (edr) "a = hE # bE" "b = hD # bD" "c = hR # bR"
    by blast
  then show ?thesis
  proof cases
    case rde
    from t [OF R D E sub(1,2,3) dis(1,2,3)] show ?thesis
      by (simp add: heuristicSplit_def lines rde)
  next
    case red
    from t [OF R E D sub(1,3,2) dis(2,1,6)] show ?thesis
      by (simp add: heuristicSplit_def lines red)
  next
    case dre
    from t [OF D R E sub(2,1,3) dis(4,3,2)] show ?thesis
      by (simp add: heuristicSplit_def lines dre)
  next
    case der
    from t [OF D E R sub(2,3,1) dis(3,4,5)] show ?thesis
      by (simp add: heuristicSplit_def lines der)
  next
    case erd
    from t [OF E R D sub(3,1,2) dis(5,6,1)] show ?thesis
      by (simp add: heuristicSplit_def lines erd)
  next
    case edr
    from t [OF E D R sub(3,2,1) dis(6,5,4)] show ?thesis
      by (simp add: heuristicSplit_def lines edr)
  qed
qed

theorem section_order_independence_witness:
  "heuristicSplit
     ''Description:\<newline>This market tracks X.\<newline>\<newline>Edge Cases:\<newline>Ambiguous if Y.\<newline>\<newline>Resolution Criteria:\<newline>Market resolves YES if X happens.''
   = \<lparr> resolutionCriteria = ''Market resolves YES if X happens.'',
        description = ''This market tracks X.'',
        edgeCases = ''Ambiguous if Y.'' \<rparr>"
proof -
  have R: "wellFormedSection [''resolution'', ''criteria''] ''Resolution Criteria:''
             [''Market resolves YES if X happens.'']"
    by code_simp
  have D: "wellFormedSection [''description''] ''Description:'' [''This market tracks X.'']"
    by code_simp
  have E: "wellFormedSection [''edge'', ''cases''] ''Edge Cases:'' [''Ambiguous if Y.'']"
    by code_simp
  have perm: "mset [[''Description:'', ''This market tracks X.''],
                    [''Edge Cases:'', ''Ambiguous if Y.''],
                    [''Resolution Criteria:'', ''Market resolves YES if X happens.'']]
              = mset [''Resolution Criteria:'' # [''Market resolves YES if X happens.''],
                      ''Description:'' # [''This market tracks X.''],
                      ''Edge Cases:'' # [''Ambiguous if Y.'']]"
    by (simp add: add_mset_commute)
  have sep: "[''''] \<noteq> []" "\<forall>x\<in>set ['''']. trim x = []"
    by (simp_all add: trim_def)
  have lines: "splitLines
     ''Description:\<newline>This market tracks X.\<newline>\<newline>Edge Cases:\<newline>Ambiguous if Y.\<newline>\<newline>Resolution Criteria:\<newline>Market resolves YES if X happens.''
     = [''Description:'', ''This market tracks X.''] @ [''''] @ [''Edge Cases:'', ''Ambiguous if Y.'']
       @ [''''] @ [''Resolution Criteria:'', ''Market resolves YES if X happens.'']"
    by code_simp
  have r: "extractSection (''Resolution Criteria:'' # [''Market resolves YES if X happens.''])
             [''resolution'', ''criteria''] = ''Market resolves YES if X happens.''"
    by code_simp
  have d: "extractSection (''Description:'' # [''This market tracks X.'']) [''description'']
             = ''This market tracks X.''"
    by code_simp
  have e: "extractSection (''Edge Cases:'' # [''Ambiguous if Y.'']) [''edge'', ''cases'']
             = ''Ambiguous if Y.''"
    by code_simp
  from section_order_independence [OF R D E perm sep sep lines] show ?thesis
    by (simp only: r d e)
qed

text \<open>
  The claim as the specification states it fails without these provisos: a body line of
  the edge cases, \<open>Delay: resolution moves to the next day.\<close>, has a keyword of the
  resolution criteria and a colon. With the edge cases first, collection of the
  resolution criteria starts at that line, and the field differs from the one obtained
  with the resolution criteria first.
\<close>

theorem section_order_counterexample:
  "heuristicSplit
     ''Resolution Criteria:\<newline>Resolves YES if X happens.\<newline>\<newline>Description:\<newline>This market tracks X.\<newline>\<newline>Edge Cases:\<newline>Delay: resolution moves to the next day.''
   = \<lparr> resolutionCriteria = ''Resolves YES if X happens.'',
        description = ''This market tracks X.'',
        edgeCases = ''Delay: resolution moves to the next day.'' \<rparr>
   \<and> heuristicSplit
     ''Edge Cases:\<newline>Delay: resolution moves to the next day.\<newline>\<newline>Description:\<newline>This market tracks X.\<newline>\<newline>Resolution Criteria:\<newline>Resolves YES if X happens.''
   = \<lparr> resolutionCriteria = ''Description:\<newline>This market tracks X.'',
        description = ''This market tracks X.'',
        edgeCases = ''Delay: resolution moves to the next day.'' \<rparr>"
  by code_simp

text \<open>
  The other two provisos are needed as well. A header that passes the test for two
  keyword sets starts both sections, and the field of the second set depends on which
  of its two headers comes first.
\<close>

lemma shared_header_depends_on_order:
  "edgeCases (heuristicSplit
     ''Description of edge cases:\<newline>This market tracks X.\<newline>\<newline>Edge Cases:\<newline>Ambiguous if Y.\<newline>\<newline>Resolution Criteria:\<newline>Resolves YES if X happens.'')
   = ''This market tracks X.''
   \<and> edgeCases (heuristicSplit
     ''Edge Cases:\<newline>Ambiguous if Y.\<newline>\<newline>Description of edge cases:\<newline>This market tracks X.\<newline>\<newline>Resolution Criteria:\<newline>Resolves YES if X happens.'')
   = ''Ambiguous if Y.''"
  by code_simp

text \<open>
  After a header without a body line, the blank line is collected without look-ahead
  (nothing has been collected yet), and the section that follows is collected with it.
\<close>

lemma empty_body_depends_on_order:
  "description (heuristicSplit
     ''Description:\<newline>\<newline>Edge Cases:\<newline>Ambiguous if Y.\<newline>\<newline>Resolution Criteria:\<newline>Resolves YES if X happens.'')
   = ''Edge Cases:\<newline>Ambiguous if Y.''
   \<and> description (heuristicSplit
     ''Edge Cases:\<newline>Ambiguous if Y.\<newline>\<newline>Description:\<newline>\<newline>Resolution Criteria:\<newline>Resolves YES if X happens.'')
   = ''Resolution Criteria:\<newline>Resolves YES if X happens.''"
  by code_simp

text \<open>
  C9. For every text and every list of keywords, no line of the field that
  \<open>extractSection\<close> returns passes the test of line 112 for these keywords: a line
  that passes it is never collected, trimming cannot make a line pass it, and the
  sentinel has neither a colon nor a hash sign.
\<close>

theorem output_has_no_own_header:
  "\<forall>l\<in>set (splitLines (extractSection (splitLines content) keywords)).
     \<not> isHeader keywords (toLowerCase l)"
proof
  fix l'
  assume l': "l' \<in> set (splitLines (extractSection (splitLines content) keywords))"
  define sec where "sec = extractLoop keywords (splitLines content) False []"
  have sec: "\<forall>l\<in>set sec. \<not> isHeader keywords (toLowerCase l) \<and> CHR ''\<newline>'' \<notin> set l"
    using extractLoop_subset [of "keywords" "splitLines content" False "[]"] splitLines_no_nl
    unfolding sec_def by auto
  show "\<not> isHeader keywords (toLowerCase l')"
  proof (cases "trim (joinLines sec) = []")
    case True
    then have "extractSection (splitLines content) keywords = notFound"
      by (simp add: extractSection_def sec_def)
    with l' have "l' = notFound"
      by (simp add: splitLines_single notFound_def)
    then show ?thesis by (simp add: notFound_not_header)
  next
    case False
    then have out: "extractSection (splitLines content) keywords = trim (joinLines sec)"
      by (simp add: extractSection_def sec_def)
    from False have ne: "sec \<noteq> []" by (auto simp: trim_def)
    from l' out lines_of_sublist [OF sublist_trim] obtain l
      where l: "l \<in> set (splitLines (joinLines sec))" "sublist l' l" by metis
    from l(1) sec ne have "l \<in> set sec" by (simp add: splitLines_joinLines)
    with sec have "\<not> isHeader keywords (toLowerCase l)" by blast
    with l(2) isHeader_sublist show ?thesis by blast
  qed
qed

theorem output_has_no_own_header_witness:
  "extractSection
     (splitLines ''Description:\<newline>The market.\<newline>Description: again\<newline>More prose.'')
     [''description'']
     = ''The market.\<newline>More prose.''
   \<and> \<not> isHeader [''description''] (toLowerCase ''The market.'')
   \<and> \<not> isHeader [''description''] (toLowerCase ''More prose.'')"
proof -
  have e: "extractSection
     (splitLines ''Description:\<newline>The market.\<newline>Description: again\<newline>More prose.'')
     [''description'']
     = ''The market.\<newline>More prose.''"
    by code_simp
  have s: "splitLines ''The market.\<newline>More prose.'' = [''The market.'', ''More prose.'']"
    by code_simp
  from output_has_no_own_header
    [of "''Description:\<newline>The market.\<newline>Description: again\<newline>More prose.''"
      "[''description'']"]
  show ?thesis unfolding e s by simp
qed

text \<open>
  C10. No field of the heuristic splitter is the empty string: when the collected lines
  join and trim to the empty string, as they do when a header line is matched and no
  body line follows, the field is the sentinel.
\<close>

theorem extractSection_never_empty:
  "extractSection lines keywords \<noteq> []
   \<and> (trim (joinLines (extractLoop keywords lines False [])) = []
        \<longrightarrow> extractSection lines keywords = notFound)
   \<and> resolutionCriteria (heuristicSplit content) \<noteq> []
   \<and> description (heuristicSplit content) \<noteq> []
   \<and> edgeCases (heuristicSplit content) \<noteq> []"
  by (simp add: extractSection_def heuristicSplit_def Let_def notFound_nonempty)

theorem extractSection_never_empty_witness:
  "trim (joinLines (extractLoop [''description''] [''Description:''] False [])) = []
   \<and> extractSection [''Description:''] [''description'']
       = ''Content not found in expected format''
   \<and> extractSection [''Description:''] [''description''] \<noteq> []"
proof -
  have h: "trim (joinLines (extractLoop [''description''] [''Description:''] False [])) = []"
    by (simp add: isHeader_def toLowerCase_def isUpperChar_def trim_def)
  from extractSection_never_empty [of "[''Description:'']" "[''description'']"] h
  show ?thesis by (simp add: notFound_def)
qed

end
